theory Spec2Isabelle
  imports Main "HOL-Library.Word" "HOL-Library.Multiset"
begin

section \<open>The worker pool (\<^verbatim>\<open>struct Worker\<close> of interpreter.cpp)\<close>

text \<open>
  A statement is represented by the text its \<^verbatim>\<open>value()\<close> gives; a
  \<^verbatim>\<open>StatementContainer\<close> (a block, a "bulk") is the list of its statements.
\<close>

type_synonym Statement = string
type_synonym StatementContainer = "Statement list"

text \<open>\<^verbatim>\<open>struct Metrics { size_t nblocks; size_t nstatements; }\<close>, with \<^verbatim>\<open>size_t\<close>
  taken as an unsigned 64-bit integer.\<close>

record Metrics =
  nblocks :: "64 word"
  nstatements :: "64 word"

text \<open>
  The program point of one thread running \<^verbatim>\<open>Worker::operator()\<close>:
  \<^item> \<open>Waiting\<close>: at the head of the \<^verbatim>\<open>while\<close> loop, taking the lock and waiting on
    \<^verbatim>\<open>cv_bulks\<close>;
  \<^item> \<open>Running local exit\<close>: past \<^verbatim>\<open>l.unlock()\<close>, inside the \<^verbatim>\<open>for\<close> loop, with
    the part of \<^verbatim>\<open>bulks_local\<close> not yet given to the job and the value of \<^verbatim>\<open>exit\<close>;
  \<^item> \<open>Exited\<close>: the thread function has returned.
\<close>

datatype thread = Waiting | Running "StatementContainer list" bool | Exited

text \<open>
  The fields of \<^verbatim>\<open>Worker\<close>. The mutex and the condition variable are not data: they
  make the three critical sections (in \<^verbatim>\<open>operator()\<close>, \<^verbatim>\<open>send\<close> and \<^verbatim>\<open>stop\<close>) atomic,
  and each is one transition below. \<open>thread_pool\<close> holds the program point of every
  thread. \<open>job_calls\<close> is a history variable: the invocations \<^verbatim>\<open>job(stms)\<close> made so
  far, each with the index of the invoking thread, in the order they were made.
\<close>

record Worker =
  thread_metrics :: "Metrics list"
  thread_pool :: "thread list"
  bulks :: "StatementContainer list"
  stopped :: bool
  job_calls :: "(nat \<times> StatementContainer) list"

text \<open>The constructor: \<open>nthreads\<close> zeroed metrics, \<open>nthreads\<close> threads started.\<close>

definition Worker_new :: "nat \<Rightarrow> Worker" where
  "Worker_new nthreads =
     \<lparr>thread_metrics = replicate nthreads \<lparr>nblocks = 0, nstatements = 0\<rparr>,
      thread_pool = replicate nthreads Waiting,
      bulks = [],
      stopped = False,
      job_calls = []\<rparr>"

text \<open>\<^verbatim>\<open>send\<close>: push the block at the back of the queue (and notify one thread).\<close>

definition send :: "StatementContainer \<Rightarrow> Worker \<Rightarrow> Worker" where
  "send stms w = w\<lparr>bulks := bulks w @ [stms]\<rparr>"

text \<open>\<^verbatim>\<open>stop\<close>: set the flag (and notify all threads).\<close>

definition stop :: "Worker \<Rightarrow> Worker" where
  "stop w = w\<lparr>stopped := True\<rparr>"

text \<open>
  One step of thread \<open>i\<close>, or \<open>None\<close> when the thread cannot move (it waits with the
  queue empty and the pool not stopped, or it has returned, or there is no such thread).
  \<^item> A waiting thread wakes when \<^verbatim>\<open>stopped || !bulks.empty()\<close>; under the lock it
    copies \<^verbatim>\<open>stopped\<close> into \<^verbatim>\<open>exit\<close> and swaps the whole queue into \<^verbatim>\<open>bulks_local\<close>.
  \<^item> A running thread with a block left calls the job on it and counts it.
  \<^item> A running thread with no block left tests \<^verbatim>\<open>while (!exit)\<close>.
\<close>

definition thread_step :: "nat \<Rightarrow> Worker \<Rightarrow> Worker option" where
  "thread_step i w =
     (if i < length (thread_pool w) then
        (case thread_pool w ! i of
           Waiting \<Rightarrow>
             if stopped w \<or> bulks w \<noteq> []
             then Some (w\<lparr>thread_pool := (thread_pool w)[i := Running (bulks w) (stopped w)],
                         bulks := []\<rparr>)
             else None
         | Running [] exit \<Rightarrow>
             Some (w\<lparr>thread_pool := (thread_pool w)[i := (if exit then Exited else Waiting)]\<rparr>)
         | Running (stms # rest) exit \<Rightarrow>
             Some (w\<lparr>job_calls := job_calls w @ [(i, stms)],
                     thread_metrics := (thread_metrics w)
                       [i := \<lparr>nblocks = nblocks (thread_metrics w ! i) + 1,
                              nstatements = nstatements (thread_metrics w ! i)
                                            + of_nat (length stms)\<rparr>],
                     thread_pool := (thread_pool w)[i := Running rest exit]\<rparr>)
         | Exited \<Rightarrow> None)
      else None)"

text \<open>
  An execution of a pool is a list of calls: the producer's \<^verbatim>\<open>send\<close> and \<^verbatim>\<open>stop\<close>, and
  the steps of the threads in the order the scheduler grants them. Granting a step to
  a thread that cannot move changes nothing.
\<close>

datatype wcall = Send StatementContainer | Stop | Step nat

fun worker_call :: "wcall \<Rightarrow> Worker \<Rightarrow> Worker" where
  "worker_call (Send stms) w = send stms w"
| "worker_call Stop w = stop w"
| "worker_call (Step i) w = (case thread_step i w of None \<Rightarrow> w | Some w' \<Rightarrow> w')"

fun worker_exec :: "wcall list \<Rightarrow> Worker \<Rightarrow> Worker" where
  "worker_exec [] w = w"
| "worker_exec (c # cs) w = worker_exec cs (worker_call c w)"

text \<open>The blocks submitted by an execution, in submission order.\<close>

fun submitted :: "wcall list \<Rightarrow> StatementContainer list" where
  "submitted [] = []"
| "submitted (Send stms # cs) = stms # submitted cs"
| "submitted (_ # cs) = submitted cs"

text \<open>The blocks the job has been invoked on, in invocation order.\<close>

definition processed :: "Worker \<Rightarrow> StatementContainer list" where
  "processed w = map snd (job_calls w)"

text \<open>The blocks a thread has swapped out of the queue and not yet given to the job.\<close>

fun in_flight :: "thread \<Rightarrow> StatementContainer list" where
  "in_flight (Running local _) = local"
| "in_flight _ = []"

text \<open>The blocks submitted and not yet processed: those in flight in some thread,
  then those still in the queue.\<close>

definition pending :: "Worker \<Rightarrow> StatementContainer list" where
  "pending w = concat (map in_flight (thread_pool w)) @ bulks w"

definition all_exited :: "Worker \<Rightarrow> bool" where
  "all_exited w = list_all (\<lambda>t. t = Exited) (thread_pool w)"

text \<open>Thread \<open>i\<close> has taken its last swap (\<^verbatim>\<open>exit\<close> is set) or has returned.\<close>

fun exit_bound :: "thread \<Rightarrow> bool" where
  "exit_bound Exited = True"
| "exit_bound (Running _ exit) = exit"
| "exit_bound Waiting = False"

text \<open>The blocks thread \<open>i\<close> has invoked the job on, in invocation order.\<close>

definition calls_of :: "nat \<Rightarrow> Worker \<Rightarrow> StatementContainer list" where
  "calls_of i w = map snd (filter (\<lambda>c. fst c = i) (job_calls w))"

text \<open>No \<^verbatim>\<open>send\<close> comes after a \<^verbatim>\<open>stop\<close> in the execution.\<close>

fun sends_precede_stop :: "wcall list \<Rightarrow> bool" where
  "sends_precede_stop [] = True"
| "sends_precede_stop (Stop # cs) = (submitted cs = [])"
| "sends_precede_stop (_ # cs) = sends_precede_stop cs"

text \<open>Once some thread has taken its last swap, the pool is stopped and the queue
  is empty (an invariant of the executions in which no \<^verbatim>\<open>send\<close> follows \<^verbatim>\<open>stop\<close>).\<close>

definition drained :: "Worker \<Rightarrow> bool" where
  "drained w = ((\<exists>t \<in> set (thread_pool w). exit_bound t) \<longrightarrow> stopped w \<and> bulks w = [])"

text \<open>
  What a call can end with other than a result:
  \<^item> \<open>OutOfRange\<close>: \<^verbatim>\<open>std::out_of_range\<close>, thrown by \<^verbatim>\<open>buffer.at\<close> and caught nowhere
    in the library;
  \<^item> \<open>Undefined\<close>: \<^verbatim>\<open>thread_metrics[0]\<close> read from an empty vector;
  \<^item> \<open>Blocked\<close>: the call has not returned: a \<^verbatim>\<open>join()\<close> in it waits for a thread
    that has not returned, or the loop of \<^verbatim>\<open>consume\<close> does not end.
\<close>

datatype error = OutOfRange | Undefined | Blocked

text \<open>
  \<^verbatim>\<open>join\<close> blocks until every thread of the pool has returned. What the threads do in
  the meantime is given by a schedule: the indices of the threads in the order they
  take their steps. When the schedule leaves a thread short of its return, the caller
  is still blocked.
\<close>

definition join :: "nat list \<Rightarrow> Worker \<Rightarrow> error + Worker" where
  "join sched w =
     (let w' = worker_exec (map Step sched) w
      in if all_exited w' then Inr w' else Inl Blocked)"

section \<open>The interpreter of one connection (\<^verbatim>\<open>Interpreter::Impl\<close>)\<close>

text \<open>
  Modelled from the spec: \<^verbatim>\<open>class Reader\<close> (reader.h), the parsing boundary, is not
  among the sources. The spec gives it at its boundary only: it accepts one line at a
  time and decides the segmentation itself; whenever a block is completed it invokes
  every registered subscriber with the block, synchronously, in registration order; at
  end of stream it flushes a partly formed block; it keeps counts of lines, commands
  and blocks. The segmentation is therefore a parameter: a value of \<open>'r Reader\<close> gives,
  for a reader state \<open>'r\<close>, the constructor from the block size, the new state and the
  completed blocks of \<^verbatim>\<open>consume(line)\<close> and of \<^verbatim>\<open>on_eof()\<close>, and the three counts of
  \<^verbatim>\<open>get_metrics()\<close> (lines, statements, blocks).
\<close>

record 'r Reader =
  Reader_new :: "nat \<Rightarrow> 'r"
  Reader_consume :: "string \<Rightarrow> 'r \<Rightarrow> 'r \<times> StatementContainer list"
  Reader_on_eof :: "'r \<Rightarrow> 'r \<times> StatementContainer list"
  Reader_get_metrics :: "'r \<Rightarrow> nat \<times> nat \<times> nat"

text \<open>The calls the interpreter makes on its reader, as a history.\<close>

datatype ReaderCall = Consume string | OnEof

text \<open>The two pools an interpreter owns (\<^verbatim>\<open>WorkerPtr log_worker, file_worker\<close>).\<close>

datatype WorkerRef = LogWorker | FileWorker

text \<open>\<^verbatim>\<open>std::array<char, 1024> buffer\<close>: \<^verbatim>\<open>at(i)\<close> throws unless \<open>i < 1024\<close>.\<close>

definition buffer_capacity :: nat where
  "buffer_capacity = 1024"

text \<open>
  The fields of \<^verbatim>\<open>Interpreter::Impl\<close>.
  \<^item> \<open>buffer\<close> is the array as the function from index to element; \<open>buffer_size\<close> is a
    \<^verbatim>\<open>size_t\<close> that stays within the capacity, so it is a natural number.
  \<^item> \<open>reader\<close> is the state of the reader; \<open>subscribers\<close> is the list the reader keeps
    of the pools subscribed to it; \<open>reader_calls\<close> is the history of the calls made on it.
  \<^item> \<open>logger\<close> is the sink seen through this interpreter: the strings it has handed to
    \<^verbatim>\<open>logger.log\<close> from the caller's thread. (What the logging job writes from the
    pool's thread is in \<open>job_calls\<close> of \<open>log_worker\<close>.)
\<close>

record 'r Impl =
  name :: string
  reader :: 'r
  subscribers :: "WorkerRef list"
  reader_calls :: "ReaderCall list"
  logger :: "string list"
  log_worker :: Worker
  file_worker :: Worker
  stopped :: bool
  buffer :: "nat \<Rightarrow> char"
  buffer_size :: nat

text \<open>\<^verbatim>\<open>Worker::on_block\<close> of a subscribed pool: \<^verbatim>\<open>send(stms)\<close>.\<close>

fun on_block :: "WorkerRef \<Rightarrow> StatementContainer \<Rightarrow> 'r Impl \<Rightarrow> 'r Impl" where
  "on_block LogWorker stms s = s\<lparr>log_worker := send stms (log_worker s)\<rparr>"
| "on_block FileWorker stms s = s\<lparr>file_worker := send stms (file_worker s)\<rparr>"

text \<open>Modelled from the spec: \<^verbatim>\<open>Reader::subscribe\<close> and the reader's notification of a
  completed block, which are in reader.h/reader.cpp: subscribers are kept in
  registration order and each is invoked on every completed block.\<close>

definition subscribe :: "WorkerRef \<Rightarrow> 'r Impl \<Rightarrow> 'r Impl" where
  "subscribe ref s = s\<lparr>subscribers := subscribers s @ [ref]\<rparr>"

definition notify :: "StatementContainer list \<Rightarrow> 'r Impl \<Rightarrow> 'r Impl" where
  "notify blocks s =
     fold (\<lambda>stms s'. fold (\<lambda>ref. on_block ref stms) (subscribers s) s') blocks s"

text \<open>The constructor of \<^verbatim>\<open>Impl\<close>: a logging pool of one thread, a file pool of
  \<open>nthreads\<close> threads, both subscribed to the reader, in this order.\<close>

definition Impl_new :: "'r Reader \<Rightarrow> string \<Rightarrow> nat \<Rightarrow> nat \<Rightarrow> 'r Impl" where
  "Impl_new rd n block_size nthreads =
     subscribe FileWorker (subscribe LogWorker
       \<lparr>name = n,
        reader = Reader_new rd block_size,
        subscribers = [],
        reader_calls = [],
        logger = [],
        log_worker = Worker_new 1,
        file_worker = Worker_new nthreads,
        stopped = False,
        buffer = (\<lambda>_. CHR 0x00),
        buffer_size = 0\<rparr>)"

text \<open>The line accumulated so far: \<^verbatim>\<open>std::string { buffer.data(), buffer_size }\<close>.\<close>

definition buffered_line :: "'r Impl \<Rightarrow> string" where
  "buffered_line s = map (buffer s) [0..<buffer_size s]"

definition consume_available :: "'r Reader \<Rightarrow> 'r Impl \<Rightarrow> 'r Impl" where
  "consume_available rd s =
     (let line = buffered_line s;
          (r, blocks) = Reader_consume rd line (reader s)
      in (notify blocks (s\<lparr>reader := r, reader_calls := reader_calls s @ [Consume line]\<rparr>))
           \<lparr>buffer_size := 0\<rparr>)"

text \<open>
  \<^verbatim>\<open>Impl::consume\<close>: the loop \<^verbatim>\<open>for (auto i = 0u; i < data.size(); ++i)\<close>, from index
  \<open>i\<close> on. The index is an \<^verbatim>\<open>unsigned\<close>, taken as 32 bits wide, and \<^verbatim>\<open>++i\<close> wraps around;
  it is compared with \<^verbatim>\<open>data.size()\<close>, a \<^verbatim>\<open>size_t\<close>. The loop need not end: the value is
  \<open>None\<close> when it does not.
\<close>

partial_function (option) consume_from ::
    "'r Reader \<Rightarrow> string \<Rightarrow> 32 word \<Rightarrow> 'r Impl \<Rightarrow> (error + 'r Impl) option" where
  "consume_from rd data i s =
     (if unat i < length data then
        (if data ! unat i = CHR 0x0A then consume_from rd data (i + 1) (consume_available rd s)
         else if buffer_size s < buffer_capacity
         then consume_from rd data (i + 1)
                (s\<lparr>buffer := (buffer s)(buffer_size s := data ! unat i),
                   buffer_size := buffer_size s + 1\<rparr>)
         else Some (Inl OutOfRange))
      else Some (Inr s))"

text \<open>\<^verbatim>\<open>Impl::consume\<close>: the loop from index 0; \<open>Blocked\<close> when it does not end.\<close>

definition consume :: "'r Reader \<Rightarrow> string \<Rightarrow> 'r Impl \<Rightarrow> error + 'r Impl" where
  "consume rd data s = (case consume_from rd data 0 s of None \<Rightarrow> Inl Blocked | Some res \<Rightarrow> res)"

text \<open>One pass over a sequence of bytes, each handled as the body of the loop handles
  it. It is what \<^verbatim>\<open>consume\<close> does in a call of fewer than \<open>2 ^ 32\<close> bytes, in which the
  index does not wrap around (\<open>consume_short\<close> below).\<close>

fun consume_bytes :: "'r Reader \<Rightarrow> string \<Rightarrow> 'r Impl \<Rightarrow> error + 'r Impl" where
  "consume_bytes rd [] s = Inr s"
| "consume_bytes rd (c # data) s =
     (if c = CHR 0x0A then consume_bytes rd data (consume_available rd s)
      else if buffer_size s < buffer_capacity
      then consume_bytes rd data
             (s\<lparr>buffer := (buffer s)(buffer_size s := c), buffer_size := buffer_size s + 1\<rparr>)
      else Inl OutOfRange)"

text \<open>\<^verbatim>\<open>Impl::on_eof\<close>. \<open>sl\<close> and \<open>sf\<close> are the schedules of the two pools' threads while
  the caller waits in the two \<^verbatim>\<open>join()\<close>s.\<close>

definition on_eof :: "'r Reader \<Rightarrow> nat list \<Rightarrow> nat list \<Rightarrow> 'r Impl \<Rightarrow> error + 'r Impl" where
  "on_eof rd sl sf s =
     (let s1 = (if buffer_size s \<noteq> 0 then consume_available rd s else s);
          (r, blocks) = Reader_on_eof rd (reader s1);
          s2 = notify blocks (s1\<lparr>reader := r, reader_calls := reader_calls s1 @ [OnEof]\<rparr>);
          s3 = s2\<lparr>log_worker := stop (log_worker s2)\<rparr>;
          s4 = s3\<lparr>file_worker := stop (file_worker s3)\<rparr>
      in case join sl (log_worker s4) of
           Inl e \<Rightarrow> Inl e
         | Inr lw \<Rightarrow>
             (case join sf (file_worker s4) of
                Inl e \<Rightarrow> Inl e
              | Inr fw \<Rightarrow> Inr (s4\<lparr>log_worker := lw, file_worker := fw\<rparr>)))"

text \<open>How \<^verbatim>\<open>operator<<\<close> and \<^verbatim>\<open>std::to_string\<close> write an unsigned number: in decimal.\<close>

definition digit_char :: "nat \<Rightarrow> char" where
  "digit_char d = ''0123456789'' ! d"

function to_string :: "nat \<Rightarrow> string" where
  "to_string n =
     (if n < 10 then [digit_char n] else to_string (n div 10) @ [digit_char (n mod 10)])"
  by pat_completeness auto
termination
  by (relation "measure id") auto

declare to_string.simps [simp del]

definition endl :: string where
  "endl = [CHR 0x0A]"

definition tab :: string where
  "tab = [CHR 0x09]"

text \<open>The text of the report \<^verbatim>\<open>stop_and_log_metrics\<close> composes, from the name, the
  reader's counts, the metrics of the logging thread and those of the file threads.\<close>

definition file_metrics_line :: "nat \<Rightarrow> Metrics \<Rightarrow> string" where
  "file_metrics_line i m =
     tab @ ''#'' @ to_string i
     @ tab @ ''blocks - '' @ to_string (unat (nblocks m))
     @ ''; statements - '' @ to_string (unat (nstatements m)) @ endl"

definition metrics_report :: "string \<Rightarrow> nat \<times> nat \<times> nat \<Rightarrow> Metrics \<Rightarrow> Metrics list \<Rightarrow> string" where
  "metrics_report n reader_metrics lm fms =
     (case reader_metrics of (lines, statements, blocks) \<Rightarrow>
        ''['' @ n @ ''] Metrics'' @ endl
        @ tab @ ''Reader:'' @ endl
        @ tab @ tab @ ''lines - '' @ to_string lines
        @ ''; statements - '' @ to_string statements
        @ ''; blocks - '' @ to_string blocks @ endl
        @ tab @ ''Log:'' @ endl
        @ tab @ tab @ ''blocks - '' @ to_string (unat (nblocks lm))
        @ ''; statements - '' @ to_string (unat (nstatements lm)) @ endl
        @ tab @ ''Files:'' @ endl
        @ concat (map (\<lambda>i. file_metrics_line i (fms ! i)) [0..<length fms]))"

text \<open>\<^verbatim>\<open>Interpreter::consume\<close>: nothing on a stopped interpreter.\<close>

definition Interpreter_consume :: "'r Reader \<Rightarrow> string \<Rightarrow> 'r Impl \<Rightarrow> error + 'r Impl" where
  "Interpreter_consume rd data s = (if stopped s then Inr s else consume rd data s)"

text \<open>\<^verbatim>\<open>Interpreter::stop_and_log_metrics\<close>: nothing on a stopped interpreter; else set
  the flag, run \<^verbatim>\<open>on_eof\<close>, then read the metrics and log the report.\<close>

definition stop_and_log_metrics ::
    "'r Reader \<Rightarrow> nat list \<Rightarrow> nat list \<Rightarrow> 'r Impl \<Rightarrow> error + 'r Impl" where
  "stop_and_log_metrics rd sl sf s =
     (if stopped s then Inr s
      else
        (case on_eof rd sl sf (s\<lparr>stopped := True\<rparr>) of
           Inl e \<Rightarrow> Inl e
         | Inr s' \<Rightarrow>
             (case thread_metrics (log_worker s') of
                [] \<Rightarrow> Inl Undefined
              | lm # _ \<Rightarrow>
                  Inr (s'\<lparr>logger := logger s' @
                        [metrics_report (name s') (Reader_get_metrics rd (reader s')) lm
                           (thread_metrics (file_worker s'))]\<rparr>))))"

text \<open>The bytes of a connection arriving in several calls, one chunk a call; a fault
  ends the run.\<close>

fun consume_chunks :: "'r Reader \<Rightarrow> string list \<Rightarrow> 'r Impl \<Rightarrow> error + 'r Impl" where
  "consume_chunks rd [] s = Inr s"
| "consume_chunks rd (data # rest) s =
     (case Interpreter_consume rd data s of
        Inl e \<Rightarrow> Inl e
      | Inr s' \<Rightarrow> consume_chunks rd rest s')"

text \<open>The lines of a byte sequence: the pieces between line feeds, the last one being
  the unterminated rest (empty when the sequence ends with a line feed).\<close>

fun split_lines :: "string \<Rightarrow> string list" where
  "split_lines [] = [[]]"
| "split_lines (c # cs) =
     (if c = CHR 0x0A then [] # split_lines cs
      else (case split_lines cs of [] \<Rightarrow> [[c]] | l # ls \<Rightarrow> (c # l) # ls))"

text \<open>No line exceeds the capacity, for an interpreter that has \<open>used\<close> bytes of an
  unfinished line in its buffer: the first line of \<open>data\<close> completes that line.\<close>

definition lines_fit :: "nat \<Rightarrow> string \<Rightarrow> bool" where
  "lines_fit used data =
     (used + length (hd (split_lines data)) \<le> buffer_capacity
      \<and> (\<forall>l \<in> set (tl (split_lines data)). length l \<le> buffer_capacity))"

section \<open>The table of connections (async.cpp)\<close>

definition nthreads_per_connection :: nat where
  "nthreads_per_connection = 2"

text \<open>A handle is the connection's id, a \<^verbatim>\<open>uintptr_t\<close>, taken as 64 bits wide.\<close>

type_synonym handle_t = "64 word"

text \<open>\<^verbatim>\<open>struct ConnectionsHandler\<close>. \<open>logger\<close> is the sink shared by all connections: the
  strings that have reached it from the callers' threads.\<close>

record 'r ConnectionsHandler =
  logger :: "string list"
  next_id :: "64 word"
  connections :: "64 word \<rightharpoonup> 'r Impl"

definition g_conn_handler :: "'r ConnectionsHandler" where
  "g_conn_handler = \<lparr>logger = [], next_id = 0, connections = Map.empty\<rparr>"

text \<open>
  \<^verbatim>\<open>connect\<close>. \<^verbatim>\<open>std::map::emplace\<close> inserts only when the key is absent. When the key
  is present (the counter has wrapped around to the id of a live connection) the
  interpreter just built is destroyed at once, and \<^verbatim>\<open>~Worker\<close> joins threads that
  nothing has stopped: the call does not return.
\<close>

definition connect ::
    "'r Reader \<Rightarrow> nat \<Rightarrow> 'r ConnectionsHandler \<Rightarrow> error + (handle_t \<times> 'r ConnectionsHandler)" where
  "connect rd bulk g =
     (let id = next_id g;
          g' = g\<lparr>next_id := next_id g + 1\<rparr>
      in case connections g id of
           None \<Rightarrow>
             Inr (id, g'\<lparr>connections := (connections g)
                          (id \<mapsto> Impl_new rd (to_string (unat id)) bulk nthreads_per_connection)\<rparr>)
         | Some _ \<Rightarrow> Inl Blocked)"

text \<open>\<^verbatim>\<open>receive\<close>: the interpreter is shared with the table, so what \<^verbatim>\<open>consume\<close> does
  to it is seen under its id.\<close>

definition receive ::
    "'r Reader \<Rightarrow> handle_t \<Rightarrow> string \<Rightarrow> 'r ConnectionsHandler \<Rightarrow> error + 'r ConnectionsHandler" where
  "receive rd handle data g =
     (case connections g handle of
        None \<Rightarrow> Inr g
      | Some intrp \<Rightarrow>
          (case Interpreter_consume rd data intrp of
             Inl e \<Rightarrow> Inl e
           | Inr intrp' \<Rightarrow> Inr (g\<lparr>connections := (connections g)(handle \<mapsto> intrp')\<rparr>)))"

text \<open>\<^verbatim>\<open>disconnect\<close>: erase the entry, then \<^verbatim>\<open>stop_and_log_metrics\<close>; what the
  interpreter logs there reaches the shared sink.\<close>

definition disconnect ::
    "'r Reader \<Rightarrow> handle_t \<Rightarrow> nat list \<Rightarrow> nat list \<Rightarrow> 'r ConnectionsHandler
       \<Rightarrow> error + 'r ConnectionsHandler" where
  "disconnect rd handle sl sf g =
     (case connections g handle of
        None \<Rightarrow> Inr g
      | Some intrp \<Rightarrow>
          (case stop_and_log_metrics rd sl sf intrp of
             Inl e \<Rightarrow> Inl e
           | Inr intrp' \<Rightarrow>
               Inr (g\<lparr>connections := (connections g)(handle := None),
                      logger := logger g @ drop (length (Impl.logger intrp)) (Impl.logger intrp')\<rparr>)))"

text \<open>
  A run of the library: the calls of its API in the order they are made, and between
  them the steps of the pools' threads (\<open>Work h ref i\<close>: thread \<open>i\<close> of pool \<open>ref\<close> of
  connection \<open>h\<close>). The calls are made one after the other; a step a thread takes
  while a call is under way is taken as made before or after the call, except inside
  \<^verbatim>\<open>join()\<close>, where the schedules of \<^verbatim>\<open>disconnect\<close> give the steps. A fault ends the
  run. The result holds the handles the \<^verbatim>\<open>connect\<close> calls returned, in order. (Callers
  of \<^verbatim>\<open>disconnect\<close> and of \<^verbatim>\<open>stop_and_log_metrics\<close> that run concurrently are modelled
  step by step in the last section of the definitions.)
\<close>

datatype call =
    Connect nat
  | Receive handle_t string
  | Disconnect handle_t "nat list" "nat list"
  | Work handle_t WorkerRef nat

fun work :: "WorkerRef \<Rightarrow> nat \<Rightarrow> 'r Impl \<Rightarrow> 'r Impl" where
  "work LogWorker i s = s\<lparr>log_worker := worker_call (Step i) (log_worker s)\<rparr>"
| "work FileWorker i s = s\<lparr>file_worker := worker_call (Step i) (file_worker s)\<rparr>"

fun run ::
    "'r Reader \<Rightarrow> call list \<Rightarrow> 'r ConnectionsHandler
       \<Rightarrow> error + (handle_t list \<times> 'r ConnectionsHandler)" where
  "run rd [] g = Inr ([], g)"
| "run rd (Connect bulk # cs) g =
     (case connect rd bulk g of
        Inl e \<Rightarrow> Inl e
      | Inr (h, g') \<Rightarrow>
          (case run rd cs g' of Inl e \<Rightarrow> Inl e | Inr (hs, g'') \<Rightarrow> Inr (h # hs, g'')))"
| "run rd (Receive h data # cs) g =
     (case receive rd h data g of Inl e \<Rightarrow> Inl e | Inr g' \<Rightarrow> run rd cs g')"
| "run rd (Disconnect h sl sf # cs) g =
     (case disconnect rd h sl sf g of Inl e \<Rightarrow> Inl e | Inr g' \<Rightarrow> run rd cs g')"
| "run rd (Work h ref i # cs) g =
     (case connections g h of
        None \<Rightarrow> run rd cs g
      | Some intrp \<Rightarrow> run rd cs (g\<lparr>connections := (connections g)(h \<mapsto> work ref i intrp)\<rparr>))"

text \<open>The handles a run returned (none when it ended in a fault).\<close>

definition handles :: "error + (handle_t list \<times> 'r ConnectionsHandler) \<Rightarrow> handle_t list" where
  "handles res = (case res of Inl _ \<Rightarrow> [] | Inr (hs, _) \<Rightarrow> hs)"

text \<open>Modelled from the spec: a reader to run the examples with, since reader.h is
  not among the sources. It is the spec's "group every n lines": a line is a command;
  a block is complete with \<open>n\<close> commands; end of stream flushes a non-empty rest. The
  state is the block size, the commands of the open block and the three counts.\<close>

definition fixed_reader :: "(nat \<times> StatementContainer \<times> nat \<times> nat \<times> nat) Reader" where
  "fixed_reader =
     \<lparr>Reader_new = (\<lambda>n. (n, [], 0, 0, 0)),
      Reader_consume = (\<lambda>line (n, cur, nl, ns, nb).
         if length cur + 1 = n then ((n, [], nl + 1, ns + 1, nb + 1), [cur @ [line]])
         else ((n, cur @ [line], nl + 1, ns + 1, nb), [])),
      Reader_on_eof = (\<lambda>(n, cur, nl, ns, nb).
         if cur = [] then ((n, cur, nl, ns, nb), []) else ((n, [], nl, ns, nb + 1), [cur])),
      Reader_get_metrics = (\<lambda>(n, cur, nl, ns, nb). (nl, ns, nb))\<rparr>"

text \<open>The lines \<^verbatim>\<open>consume\<close> completes when \<open>data\<close> arrives with \<open>b\<close> in the buffer: the
  lines of \<open>data\<close>, the first one prefixed with \<open>b\<close>, without the unterminated rest.\<close>

definition complete_lines :: "string \<Rightarrow> string \<Rightarrow> string list" where
  "complete_lines b data = butlast ((b @ hd (split_lines data)) # tl (split_lines data))"

text \<open>The table after \<open>n\<close> calls \<^verbatim>\<open>connect(bulk)\<close> and nothing else.\<close>

definition connected :: "'r Reader \<Rightarrow> nat \<Rightarrow> nat \<Rightarrow> 'r ConnectionsHandler" where
  "connected rd bulk n =
     \<lparr>logger = [], next_id = of_nat n,
      connections = (\<lambda>id. if unat id < n
                           then Some (Impl_new rd (to_string (unat id)) bulk nthreads_per_connection)
                           else None)\<rparr>"

text \<open>The number of steps a thread of a stopped pool takes until it has returned,
  when nothing else happens meanwhile and \<open>q\<close> blocks are queued.\<close>

fun steps_left :: "thread \<Rightarrow> nat \<Rightarrow> nat" where
  "steps_left Exited q = 0"
| "steps_left (Running local True) q = length local + 1"
| "steps_left (Running local False) q = length local + q + 3"
| "steps_left Waiting q = q + 2"

text \<open>The interpreter inside \<^verbatim>\<open>on_eof\<close>, at the point where the end of stream has
  been signalled to the reader and the pools are not stopped yet.\<close>

definition eof_sent :: "'r Reader \<Rightarrow> 'r Impl \<Rightarrow> 'r Impl" where
  "eof_sent rd s =
     (let s1 = (if buffer_size s \<noteq> 0 then consume_available rd s else s);
          (r, blocks) = Reader_on_eof rd (reader s1)
      in notify blocks (s1\<lparr>reader := r, reader_calls := reader_calls s1 @ [OnEof]\<rparr>))"

text \<open>A pool at work: not stopped, with at least one thread, none of which has taken
  its last swap.\<close>

definition working_pool :: "Worker \<Rightarrow> bool" where
  "working_pool w =
     (\<not> Worker.stopped w \<and> thread_pool w \<noteq> [] \<and> (\<forall>t \<in> set (thread_pool w). \<not> exit_bound t))"


text \<open>The table a run ended with (the initial table when it ended in a fault).\<close>

definition table :: "error + (handle_t list \<times> 'r ConnectionsHandler) \<Rightarrow> 'r ConnectionsHandler" where
  "table res = (case res of Inl _ \<Rightarrow> g_conn_handler | Inr (_, g) \<Rightarrow> g)"

section \<open>Concurrent callers of the shutdown\<close>

text \<open>
  Where a thread is inside \<^verbatim>\<open>Interpreter::stop_and_log_metrics\<close>:
  \<^item> \<open>AtCheck\<close>: before the first \<^verbatim>\<open>if (priv_->stopped) return;\<close>, which reads the flag
    without the lock;
  \<^item> \<open>AtLock\<close>: before the block that takes \<^verbatim>\<open>priv_->guard\<close>, tests the flag again and
    sets it;
  \<^item> \<open>Working\<close>: past that block, having set the flag, before \<^verbatim>\<open>priv_->on_eof()\<close>;
  \<^item> \<open>Returned\<close>: the call has returned.
\<close>

datatype caller = AtCheck | AtLock | Working | Returned



text \<open>
  Where a thread is inside \<^verbatim>\<open>disconnect(handle)\<close>: \<open>AtTable\<close>, before the block that
  takes the table's lock, looks the handle up and erases it; \<open>Inside c\<close>, in
  \<^verbatim>\<open>intrp->stop_and_log_metrics()\<close> at point \<open>c\<close>; \<open>Finished\<close>, returned.
\<close>

datatype dcaller = AtTable | Inside caller | Finished




text \<open>The phases of an execution of concurrent callers of \<^verbatim>\<open>disconnect\<close> on handle \<open>h\<close>
  of a table that was \<open>g0\<close>, where the handle identified interpreter \<open>s0\<close>.\<close>

definition disconnect_phase ::
    "'r Reader \<Rightarrow> handle_t \<Rightarrow> 'r ConnectionsHandler \<Rightarrow> 'r Impl
       \<Rightarrow> 'r ConnectionsHandler \<times> 'r Impl option \<times> dcaller list \<Rightarrow> bool" where
  "disconnect_phase rd h g0 s0 st =
     (case st of (g, obj, pcs) \<Rightarrow>
        (g = g0 \<and> obj = None \<and> (\<forall>c \<in> set pcs. c = AtTable))
      \<or> (g = g0\<lparr>connections := (connections g0)(h := None)\<rparr>
           \<and> (\<exists>k < length pcs. \<exists>c.
                  pcs ! k = Inside c
                \<and> (\<forall>j < length pcs. j \<noteq> k \<longrightarrow> pcs ! j = AtTable \<or> pcs ! j = Finished)
                \<and> ((obj = Some s0 \<and> (c = AtCheck \<or> c = AtLock))
                    \<or> (obj = Some (s0\<lparr>Impl.stopped := True\<rparr>) \<and> c = Working))))
      \<or> ((\<exists>sl sf. disconnect rd h sl sf g0 = Inr g)
           \<and> (\<forall>c \<in> set pcs. c = AtTable \<or> c = Finished)))"

section \<open>Properties of the worker pool\<close>

subsection \<open>Executions keep the number of threads\<close>

lemma thread_pool_length_call:
  "length (thread_pool (worker_call c w)) = length (thread_pool w)"
  by (cases c)
    (auto simp: send_def stop_def thread_step_def
          split: thread.splits list.splits option.splits if_splits)

lemma thread_pool_length_exec:
  "length (thread_pool (worker_exec cs w)) = length (thread_pool w)"
  by (induction cs arbitrary: w) (simp_all add: thread_pool_length_call)

subsection \<open>Conservation of the blocks\<close>

lemma single_thread_call:
  assumes "length (thread_pool w) = 1"
  shows "processed (worker_call c w) @ pending (worker_call c w)
         = processed w @ pending w @ submitted [c]"
proof -
  from assms obtain t where t: "thread_pool w = [t]"
    by (cases "thread_pool w") auto
  show ?thesis
  proof (cases c)
    case (Send stms)
    then show ?thesis by (simp add: send_def processed_def pending_def)
  next
    case Stop
    then show ?thesis by (simp add: stop_def processed_def pending_def)
  next
    case (Step i)
    then show ?thesis using t
      by (cases t) (auto simp: thread_step_def processed_def pending_def split: list.splits)
  qed
qed

lemma single_thread_exec:
  "length (thread_pool w) = 1 \<Longrightarrow>
   processed (worker_exec cs w) @ pending (worker_exec cs w)
     = processed w @ pending w @ submitted cs"
proof (induction cs arbitrary: w)
  case Nil
  then show ?case by simp
next
  case (Cons c cs)
  have "length (thread_pool (worker_call c w)) = 1"
    using Cons.prems by (simp add: thread_pool_length_call)
  from Cons.IH [OF this] single_thread_call [OF Cons.prems, of c]
  show ?case by (cases c) simp_all
qed

lemma mset_in_flight_update:
  "i < length ts \<Longrightarrow>
   mset (concat (map in_flight (ts[i := t]))) + mset (in_flight (ts ! i))
     = mset (concat (map in_flight ts)) + mset (in_flight t)"
proof (induction ts arbitrary: i)
  case Nil
  then show ?case by simp
next
  case (Cons a ts)
  then show ?case by (cases i) (simp_all add: ac_simps)
qed

lemma thread_step_conserves:
  assumes "thread_step i w = Some w'"
  shows "mset (processed w') + mset (pending w') = mset (processed w) + mset (pending w)"
proof -
  from assms have i: "i < length (thread_pool w)"
    by (simp add: thread_step_def split: if_splits)
  show ?thesis
  proof (cases "thread_pool w ! i")
    case Waiting
    with assms i mset_in_flight_update [OF i, of "Running (bulks w) (Worker.stopped w)"]
    show ?thesis
      by (auto simp: thread_step_def processed_def pending_def split: if_splits)
  next
    case (Running local exit)
    show ?thesis
    proof (cases local)
      case Nil
      with Running assms i mset_in_flight_update [OF i, of "if exit then Exited else Waiting"]
      show ?thesis
        by (auto simp: thread_step_def processed_def pending_def split: if_splits)
    next
      case (Cons stms rest)
      with Running assms i mset_in_flight_update [OF i, of "Running rest exit"]
      show ?thesis
        by (auto simp: thread_step_def processed_def pending_def)
    qed
  next
    case Exited
    with assms i show ?thesis by (simp add: thread_step_def)
  qed
qed

lemma worker_call_conserves:
  "mset (processed (worker_call c w)) + mset (pending (worker_call c w))
     = mset (processed w) + mset (pending w) + mset (submitted [c])"
proof (cases c)
  case (Send stms)
  then show ?thesis by (simp add: send_def processed_def pending_def)
next
  case Stop
  then show ?thesis by (simp add: stop_def processed_def pending_def)
next
  case (Step i)
  then show ?thesis
    by (cases "thread_step i w") (simp_all add: thread_step_conserves)
qed

text \<open>Conservation: at every moment of every execution, the blocks processed and the
  blocks pending are together the blocks submitted, as multisets.\<close>

lemma worker_exec_conserves:
  "mset (processed (worker_exec cs w)) + mset (pending (worker_exec cs w))
     = mset (processed w) + mset (pending w) + mset (submitted cs)"
proof (induction cs arbitrary: w)
  case Nil
  then show ?case by simp
next
  case (Cons c cs)
  show ?case
    using Cons.IH [of "worker_call c w"] worker_call_conserves [of c w]
    by (cases c) (simp_all add: ac_simps)
qed

subsection \<open>Executions in which no block is sent after the stop\<close>

lemma drainedD:
  "drained w \<Longrightarrow> t \<in> set (thread_pool w) \<Longrightarrow> exit_bound t \<Longrightarrow>
   Worker.stopped w \<and> bulks w = []"
  unfolding drained_def by blast

lemma exit_bound_update:
  "t' \<in> set (ts[i := t]) \<Longrightarrow> exit_bound t' \<Longrightarrow> exit_bound t \<or> (\<exists>t \<in> set ts. exit_bound t)"
  by (metis insert_iff set_update_subset_insert subsetD)

lemma thread_step_drained:
  assumes "thread_step i w = Some w'" and "drained w"
  shows "drained w'"
proof -
  from assms have i: "i < length (thread_pool w)"
    by (simp add: thread_step_def split: if_splits)
  then have mem: "thread_pool w ! i \<in> set (thread_pool w)" by simp
  show ?thesis
  proof (cases "thread_pool w ! i")
    case Waiting
    with assms i show ?thesis
      by (auto simp: thread_step_def drained_def split: if_splits dest!: exit_bound_update)
  next
    case (Running local exit)
    have old: "exit \<Longrightarrow> Worker.stopped w \<and> bulks w = []"
      using drainedD [OF assms(2) mem] Running by simp
    define t where
      "t = (case local of [] \<Rightarrow> if exit then Exited else Waiting | _ # rest \<Rightarrow> Running rest exit)"
    have w': "Worker.stopped w' = Worker.stopped w" "bulks w' = bulks w"
        "thread_pool w' = (thread_pool w)[i := t]" "exit_bound t \<Longrightarrow> exit"
      using assms(1) i Running
      by (cases local; auto simp: thread_step_def t_def split: if_splits)+
    show ?thesis
      unfolding drained_def
    proof
      assume "\<exists>t \<in> set (thread_pool w'). exit_bound t"
      then obtain t' where "t' \<in> set ((thread_pool w)[i := t])" "exit_bound t'"
        using w'(3) by auto
      then have "exit_bound t \<or> (\<exists>t \<in> set (thread_pool w). exit_bound t)"
        by (rule exit_bound_update)
      then have "Worker.stopped w \<and> bulks w = []"
        using old w'(4) assms(2) by (auto simp: drained_def)
      then show "Worker.stopped w' \<and> bulks w' = []" using w' by simp
    qed
  next
    case Exited
    with assms i show ?thesis by (simp add: thread_step_def)
  qed
qed

lemma no_sends_precede_stop: "submitted cs = [] \<Longrightarrow> sends_precede_stop cs"
  by (induction cs rule: sends_precede_stop.induct) auto

lemma worker_exec_drained:
  "drained w \<Longrightarrow> (Worker.stopped w \<longrightarrow> submitted cs = []) \<Longrightarrow> sends_precede_stop cs \<Longrightarrow>
   drained (worker_exec cs w)"
proof (induction cs arbitrary: w)
  case Nil
  then show ?case by simp
next
  case (Cons c cs)
  show ?case
  proof (cases c)
    case (Send stms)
    with Cons.prems have ns: "\<not> Worker.stopped w" by simp
    with Cons.prems(1) have "drained (send stms w)"
      by (auto simp: drained_def send_def)
    moreover have "\<not> Worker.stopped (send stms w)" using ns by (simp add: send_def)
    ultimately show ?thesis using Cons.IH [of "send stms w"] Cons.prems(3) Send by simp
  next
    case Stop
    have "drained (stop w)" using Cons.prems(1) by (auto simp: drained_def stop_def)
    then show ?thesis using Cons.IH [of "stop w"] Cons.prems Stop
      by (simp add: no_sends_precede_stop)
  next
    case (Step i)
    show ?thesis
    proof (cases "thread_step i w")
      case None
      then show ?thesis using Cons Step by simp
    next
      case (Some w')
      have "Worker.stopped w' = Worker.stopped w" using Some
        by (auto simp: thread_step_def split: if_splits thread.splits list.splits)
      then show ?thesis
        using Cons.IH [of w'] Cons.prems Step Some thread_step_drained [OF Some] by simp
    qed
  qed
qed

lemma exited_pending:
  assumes "0 < n" and "sends_precede_stop cs"
    and "all_exited (worker_exec cs (Worker_new n))"
  shows "pending (worker_exec cs (Worker_new n)) = []"
proof -
  let ?w = "worker_exec cs (Worker_new n)"
  have len: "length (thread_pool ?w) = n"
    by (simp add: thread_pool_length_exec) (simp add: Worker_new_def)
  have all: "\<forall>t \<in> set (thread_pool ?w). t = Exited"
    using assms(3) by (simp add: all_exited_def list_all_iff)
  from len assms(1) obtain t where t: "t \<in> set (thread_pool ?w)"
    by (cases "thread_pool ?w") auto
  have "drained (Worker_new n)" by (simp add: drained_def Worker_new_def)
  then have "drained ?w"
    using assms(2) by (intro worker_exec_drained) (simp_all add: Worker_new_def)
  moreover from all t have "exit_bound t" by auto
  ultimately have "bulks ?w = []" using t drainedD [of ?w t] by simp
  moreover have "concat (map in_flight (thread_pool ?w)) = []"
    using all by (induction "thread_pool ?w") auto
  ultimately show ?thesis by (simp add: pending_def)
qed

subsection \<open>The threads of a stopped pool return\<close>


lemma finish_thread:
  "Worker.stopped w \<Longrightarrow> i < length (thread_pool w) \<Longrightarrow>
   steps_left (thread_pool w ! i) (length (bulks w)) = k \<Longrightarrow>
   thread_pool (worker_exec (replicate k (Step i)) w) ! i = Exited
   \<and> Worker.stopped (worker_exec (replicate k (Step i)) w)
   \<and> (\<forall>j. j \<noteq> i \<longrightarrow> thread_pool (worker_exec (replicate k (Step i)) w) ! j = thread_pool w ! j)"
proof (induction k arbitrary: w)
  case 0
  then show ?case
    by (cases "(thread_pool w ! i, length (bulks w))" rule: steps_left.cases) auto
next
  case (Suc k)
  obtain w1 where step: "thread_step i w = Some w1"
    and w1: "Worker.stopped w1" "i < length (thread_pool w1)"
      "steps_left (thread_pool w1 ! i) (length (bulks w1)) = k"
      "\<forall>j. j \<noteq> i \<longrightarrow> thread_pool w1 ! j = thread_pool w ! j"
  proof (cases "thread_pool w ! i")
    case Waiting
    with Suc.prems that [of "w\<lparr>thread_pool := (thread_pool w)[i := Running (bulks w) True], bulks := []\<rparr>"]
    show ?thesis by (simp add: thread_step_def)
  next
    case (Running local exit)
    show ?thesis
    proof (cases local)
      case Nil
      with Running Suc.prems
        that [of "w\<lparr>thread_pool := (thread_pool w)[i := (if exit then Exited else Waiting)]\<rparr>"]
      show ?thesis by (cases exit) (simp_all add: thread_step_def)
    next
      case (Cons stms rest)
      with Running Suc.prems
        that [of "w\<lparr>job_calls := job_calls w @ [(i, stms)],
                     thread_metrics := (thread_metrics w)
                       [i := \<lparr>nblocks = nblocks (thread_metrics w ! i) + 1,
                              nstatements = nstatements (thread_metrics w ! i)
                                            + of_nat (length stms)\<rparr>],
                     thread_pool := (thread_pool w)[i := Running rest exit]\<rparr>"]
      show ?thesis by (cases exit) (simp_all add: thread_step_def)
    qed
  next
    case Exited
    with Suc.prems show ?thesis by simp
  qed
  from Suc.IH [OF w1(1,2,3)] step w1(4) show ?case by simp
qed






lemma worker_call_Step_stopped:
  "Worker.stopped (worker_call (Step i) w) = Worker.stopped w"
  by (auto simp: thread_step_def split: option.splits if_splits thread.splits list.splits)

lemma worker_exec_Steps_stopped:
  "Worker.stopped (worker_exec (map Step sched) w) = Worker.stopped w"
  by (induction sched arbitrary: w) (simp_all add: worker_call_Step_stopped del: worker_call.simps)

lemma joinD:
  "join sched w = Inr w' \<Longrightarrow> all_exited w' \<and> Worker.stopped w' = Worker.stopped w"
  by (auto simp: join_def Let_def worker_exec_Steps_stopped split: if_splits)


subsection \<open>What a thread on its way out has left to do\<close>

lemma exit_bound_step:
  assumes "thread_step j w = Some w'" and "i < length (thread_pool w)"
    and "exit_bound (thread_pool w ! i)"
  shows "exit_bound (thread_pool w' ! i) \<and>
         calls_of i w' @ in_flight (thread_pool w' ! i)
           = calls_of i w @ in_flight (thread_pool w ! i)"
proof (cases "j = i")
  case True
  show ?thesis
  proof (cases "thread_pool w ! i")
    case Waiting
    with assms show ?thesis by simp
  next
    case (Running local exit)
    with assms True show ?thesis
      by (cases local) (auto simp: thread_step_def calls_of_def)
  next
    case Exited
    with assms True show ?thesis by (simp add: thread_step_def)
  qed
next
  case False
  from assms(1) have j: "j < length (thread_pool w)"
    by (simp add: thread_step_def split: if_splits)
  show ?thesis
  proof (cases "thread_pool w ! j")
    case Waiting
    with assms False j show ?thesis
      by (auto simp: thread_step_def calls_of_def split: if_splits)
  next
    case (Running local exit)
    with assms False j show ?thesis
      by (cases local) (auto simp: thread_step_def calls_of_def)
  next
    case Exited
    with assms j show ?thesis by (simp add: thread_step_def)
  qed
qed

lemma exit_bound_call:
  assumes "i < length (thread_pool w)" and "exit_bound (thread_pool w ! i)"
  shows "exit_bound (thread_pool (worker_call c w) ! i) \<and>
         calls_of i (worker_call c w) @ in_flight (thread_pool (worker_call c w) ! i)
           = calls_of i w @ in_flight (thread_pool w ! i)"
proof (cases c)
  case (Send stms)
  with assms show ?thesis by (simp add: send_def calls_of_def)
next
  case Stop
  with assms show ?thesis by (simp add: stop_def calls_of_def)
next
  case (Step j)
  with assms show ?thesis
    by (cases "thread_step j w") (simp_all add: exit_bound_step)
qed

lemma exit_bound_exec:
  "i < length (thread_pool w) \<Longrightarrow> exit_bound (thread_pool w ! i) \<Longrightarrow>
   exit_bound (thread_pool (worker_exec cs w) ! i) \<and>
   calls_of i (worker_exec cs w) @ in_flight (thread_pool (worker_exec cs w) ! i)
     = calls_of i w @ in_flight (thread_pool w ! i)"
proof (induction cs arbitrary: w)
  case Nil
  then show ?case by simp
next
  case (Cons c cs)
  from exit_bound_call [OF Cons.prems, of c]
  have "exit_bound (thread_pool (worker_call c w) ! i)"
    and eq: "calls_of i (worker_call c w) @ in_flight (thread_pool (worker_call c w) ! i)
              = calls_of i w @ in_flight (thread_pool w ! i)"
    by simp_all
  moreover have "i < length (thread_pool (worker_call c w))"
    using Cons.prems(1) by (simp add: thread_pool_length_call)
  ultimately show ?case using Cons.IH [of "worker_call c w"] by simp
qed

subsection \<open>The laws of the pool\<close>

text \<open>
  Claim C2 (single-thread pool ordering law). For a \<^verbatim>\<open>Worker\<close> constructed with one
  thread, and every execution \<open>cs\<close> (any interleaving of \<^verbatim>\<open>send\<close>, \<^verbatim>\<open>stop\<close> and steps of
  the thread): the blocks the job has been invoked on, followed by the blocks still
  waiting (swapped out by the thread, then queued), are the blocks submitted, in
  submission order. So at every moment the invocations of the job are a prefix of the
  submissions: the job is invoked on the blocks in exactly the order they were
  submitted. And when no block was submitted after \<^verbatim>\<open>stop()\<close> and the thread has
  returned, the job has been invoked on all of them.
\<close>

theorem single_thread_order:
  "processed (worker_exec cs (Worker_new 1)) @ pending (worker_exec cs (Worker_new 1))
     = submitted cs
   \<and> (sends_precede_stop cs \<and> all_exited (worker_exec cs (Worker_new 1)) \<longrightarrow>
        processed (worker_exec cs (Worker_new 1)) = submitted cs)"
proof -
  have order: "processed (worker_exec cs (Worker_new 1)) @ pending (worker_exec cs (Worker_new 1))
                 = submitted cs"
    using single_thread_exec [of "Worker_new 1" cs]
    by (simp add: Worker_new_def processed_def pending_def)
  moreover have "processed (worker_exec cs (Worker_new 1)) = submitted cs"
    if "sends_precede_stop cs" and "all_exited (worker_exec cs (Worker_new 1))"
    using exited_pending [where n = 1 and cs = cs] that order by simp
  ultimately show ?thesis by blast
qed

theorem single_thread_order_witness:
  "sends_precede_stop [Send [''a''], Send [''b'', ''c''], Step 0, Step 0, Send [''d''],
                       Stop, Step 0, Step 0, Step 0, Step 0, Step 0]
   \<and> all_exited (worker_exec [Send [''a''], Send [''b'', ''c''], Step 0, Step 0, Send [''d''],
                               Stop, Step 0, Step 0, Step 0, Step 0, Step 0] (Worker_new 1))
   \<and> processed (worker_exec [Send [''a''], Send [''b'', ''c''], Step 0, Step 0, Send [''d''],
                              Stop, Step 0, Step 0, Step 0, Step 0, Step 0] (Worker_new 1))
     = [[''a''], [''b'', ''c''], [''d'']]"
proof -
  let ?cs = "[Send [''a''], Send [''b'', ''c''], Step 0, Step 0, Send [''d''],
              Stop, Step 0, Step 0, Step 0, Step 0, Step 0]"
  have h1: "sends_precede_stop ?cs" by simp
  have h2: "all_exited (worker_exec ?cs (Worker_new 1))"
    by (simp add: Worker_new_def thread_step_def stop_def send_def all_exited_def)
  have "submitted ?cs = [[''a''], [''b'', ''c''], [''d'']]" by simp
  with single_thread_order [of ?cs] h1 h2 show ?thesis by (simp only:)
qed

text \<open>
  Claim C3 (\<^verbatim>\<open>stop\<close> does not discard queued work). In any state \<open>w\<close> of a pool that
  has been stopped, a waiting thread \<open>i\<close> can wake; its wake swaps the whole queue out
  (the queue is empty afterwards, the thread holds what was queued, with \<^verbatim>\<open>exit\<close> set);
  the thread then returns after one step for each of these blocks and one more; and
  however the execution goes on (\<open>cs\<close>: further \<^verbatim>\<open>send\<close>s, steps of this and of the
  other threads), when thread \<open>i\<close> has returned it has invoked the job on exactly the
  blocks that were queued at its wake, in queue order, after its earlier invocations.
\<close>

theorem stop_drains_queue:
  assumes "i < length (thread_pool w)" and "thread_pool w ! i = Waiting" and "Worker.stopped w"
  shows "\<exists>w'. thread_step i w = Some w' \<and> bulks w' = [] \<and>
           thread_pool w' ! i = Running (bulks w) True \<and>
           thread_pool (worker_exec (replicate (length (bulks w) + 1) (Step i)) w') ! i = Exited \<and>
           (\<forall>cs. thread_pool (worker_exec cs w') ! i = Exited \<longrightarrow>
                 calls_of i (worker_exec cs w') = calls_of i w @ bulks w)"
proof -
  define w' where
    "w' = w\<lparr>thread_pool := (thread_pool w)[i := Running (bulks w) True], bulks := []\<rparr>"
  have step: "thread_step i w = Some w'"
    using assms by (simp add: thread_step_def w'_def)
  have run: "thread_pool w' ! i = Running (bulks w) True" and len: "i < length (thread_pool w')"
    and calls: "calls_of i w' = calls_of i w" and st: "Worker.stopped w'"
    using assms(1,3) by (simp_all add: w'_def calls_of_def)
  have "steps_left (thread_pool w' ! i) (length (bulks w')) = length (bulks w) + 1"
    using run by simp
  from finish_thread [OF st len this]
  have fin: "thread_pool (worker_exec (replicate (length (bulks w) + 1) (Step i)) w') ! i = Exited"
    by simp
  have "calls_of i (worker_exec cs w') = calls_of i w @ bulks w"
    if "thread_pool (worker_exec cs w') ! i = Exited" for cs
    using exit_bound_exec [OF len, of cs] run calls that by simp
  with step run fin show ?thesis by (auto simp: w'_def)
qed

theorem stop_drains_queue_witness:
  "\<exists>w'. thread_step 1
           \<lparr>thread_metrics = [\<lparr>nblocks = 0, nstatements = 0\<rparr>, \<lparr>nblocks = 0, nstatements = 0\<rparr>],
            thread_pool = [Waiting, Waiting], bulks = [[''a''], [''b'']],
            stopped = True, job_calls = []\<rparr> = Some w'
       \<and> thread_pool (worker_exec [Step 1, Step 0, Step 1, Step 1] w') ! 1 = Exited
       \<and> calls_of 1 (worker_exec [Step 1, Step 0, Step 1, Step 1] w') = [[''a''], [''b'']]"
proof -
  let ?w = "\<lparr>thread_metrics = [\<lparr>nblocks = 0, nstatements = 0\<rparr>, \<lparr>nblocks = 0, nstatements = 0\<rparr>],
            thread_pool = [Waiting, Waiting], bulks = [[''a''], [''b'']],
            stopped = True, job_calls = []\<rparr>"
  let ?w1 = "\<lparr>thread_metrics = [\<lparr>nblocks = 0, nstatements = 0\<rparr>, \<lparr>nblocks = 0, nstatements = 0\<rparr>],
            thread_pool = [Waiting, Running [[''a''], [''b'']] True], bulks = [],
            stopped = True, job_calls = []\<rparr>"
  have h1: "1 < length (thread_pool ?w)" and h2: "thread_pool ?w ! 1 = Waiting"
    and h3: "Worker.stopped ?w"
    by simp_all
  have val: "thread_step 1 ?w = Some ?w1"
    by (simp add: thread_step_def)
  have ex: "thread_pool (worker_exec [Step 1, Step 0, Step 1, Step 1] ?w1) ! 1 = Exited"
    by (simp add: thread_step_def)
  from stop_drains_queue [OF h1 h2 h3] val
  have "\<forall>cs. thread_pool (worker_exec cs ?w1) ! 1 = Exited \<longrightarrow>
                calls_of 1 (worker_exec cs ?w1) = calls_of 1 ?w @ bulks ?w"
    by simp
  with ex have "calls_of 1 (worker_exec [Step 1, Step 0, Step 1, Step 1] ?w1)
                  = calls_of 1 ?w @ bulks ?w"
    by blast
  moreover have "calls_of 1 ?w @ bulks ?w = [[''a''], [''b'']]"
    by (simp add: calls_of_def)
  ultimately have "calls_of 1 (worker_exec [Step 1, Step 0, Step 1, Step 1] ?w1)
                     = [[''a''], [''b'']]"
    by (simp only:)
  with val ex show ?thesis by blast
qed

text \<open>
  Claim C9 (completeness law), as stated, fails for a block submitted after \<^verbatim>\<open>stop()\<close>:
  \<^verbatim>\<open>send\<close> takes it all the same. Here a pool of two threads is stopped, both threads
  wake, find nothing and return, and a block is submitted then: every thread has
  returned, the job was invoked on nothing, and the block stays in the queue.
\<close>

theorem completeness_counterexample:
  "all_exited (worker_exec [Stop, Step 0, Step 0, Step 1, Step 1, Send [''cmd'']] (Worker_new 2))
   \<and> mset (processed
        (worker_exec [Stop, Step 0, Step 0, Step 1, Step 1, Send [''cmd'']] (Worker_new 2)))
     \<noteq> mset (submitted [Stop, Step 0, Step 0, Step 1, Step 1, Send [''cmd'']])"
  by (simp add: Worker_new_def thread_step_def stop_def send_def all_exited_def processed_def
        numeral_2_eq_2)

text \<open>
  Claim C9, amended. For a \<^verbatim>\<open>Worker\<close> with \<open>n \<ge> 1\<close> threads and every execution in
  which no block is submitted after \<^verbatim>\<open>stop()\<close>: once every thread has returned (what
  \<^verbatim>\<open>join()\<close> waits for), the multiset of the blocks the jobs were invoked on, across all
  threads, is the multiset of the blocks submitted: none lost, none duplicated, in
  whatever order.
\<close>

theorem completeness_before_stop:
  assumes "0 < n" and "sends_precede_stop cs"
    and "all_exited (worker_exec cs (Worker_new n))"
  shows "mset (processed (worker_exec cs (Worker_new n))) = mset (submitted cs)"
proof -
  have "processed (Worker_new n) = []" "pending (Worker_new n) = []"
    by (simp_all add: processed_def pending_def Worker_new_def)
  with exited_pending [OF assms] show ?thesis
    using worker_exec_conserves [of cs "Worker_new n"] by simp
qed

theorem completeness_before_stop_witness:
  "sends_precede_stop [Send [''a''], Send [''b''], Step 1, Send [''c''], Step 0, Step 1, Stop,
                       Step 0, Step 1, Step 1, Step 0, Step 1, Step 1, Step 0, Step 0]
   \<and> all_exited (worker_exec [Send [''a''], Send [''b''], Step 1, Send [''c''], Step 0, Step 1,
                               Stop, Step 0, Step 1, Step 1, Step 0, Step 1, Step 1, Step 0, Step 0]
                               (Worker_new 2))
   \<and> mset (processed (worker_exec [Send [''a''], Send [''b''], Step 1, Send [''c''], Step 0,
                               Step 1, Stop, Step 0, Step 1, Step 1, Step 0, Step 1, Step 1,
                               Step 0, Step 0] (Worker_new 2)))
     = {#[''a''], [''b''], [''c'']#}"
proof -
  let ?cs = "[Send [''a''], Send [''b''], Step 1, Send [''c''], Step 0, Step 1, Stop,
              Step 0, Step 1, Step 1, Step 0, Step 1, Step 1, Step 0, Step 0]"
  have h1: "0 < (2::nat)" by simp
  have h2: "sends_precede_stop ?cs" by simp
  have h3: "all_exited (worker_exec ?cs (Worker_new 2))"
    by (simp add: Worker_new_def thread_step_def stop_def send_def all_exited_def numeral_2_eq_2)
  have "mset (submitted ?cs) = {#[''a''], [''b''], [''c'']#}" by simp
  with completeness_before_stop [OF h1 h2 h3] h2 h3 show ?thesis by (simp only:)
qed

subsection \<open>A pool at work, and its shutdown\<close>


lemma working_pool_send [simp]: "working_pool (send stms w) = working_pool w"
  by (simp add: working_pool_def send_def)


lemma submitted_Steps [simp]: "submitted (map Step sched) = []"
  by (induction sched) simp_all



section \<open>Properties of the interpreter\<close>

subsection \<open>What the reader's notification leaves alone\<close>

lemma on_block_fields:
  "name (on_block ref stms s) = name s"
  "reader (on_block ref stms s) = reader s"
  "subscribers (on_block ref stms s) = subscribers s"
  "reader_calls (on_block ref stms s) = reader_calls s"
  "Impl.logger (on_block ref stms s) = Impl.logger s"
  "Impl.stopped (on_block ref stms s) = Impl.stopped s"
  "buffer (on_block ref stms s) = buffer s"
  "buffer_size (on_block ref stms s) = buffer_size s"
  by (cases ref; simp)+

lemma fold_on_block_fields:
  "name (fold (\<lambda>ref. on_block ref stms) refs s) = name s"
  "reader (fold (\<lambda>ref. on_block ref stms) refs s) = reader s"
  "subscribers (fold (\<lambda>ref. on_block ref stms) refs s) = subscribers s"
  "reader_calls (fold (\<lambda>ref. on_block ref stms) refs s) = reader_calls s"
  "Impl.logger (fold (\<lambda>ref. on_block ref stms) refs s) = Impl.logger s"
  "Impl.stopped (fold (\<lambda>ref. on_block ref stms) refs s) = Impl.stopped s"
  "buffer (fold (\<lambda>ref. on_block ref stms) refs s) = buffer s"
  "buffer_size (fold (\<lambda>ref. on_block ref stms) refs s) = buffer_size s"
  by (induction refs arbitrary: s; simp add: on_block_fields)+

lemma fold_notify_fields:
  "name (fold (\<lambda>stms. fold (\<lambda>ref. on_block ref stms) refs) blocks s) = name s"
  "reader (fold (\<lambda>stms. fold (\<lambda>ref. on_block ref stms) refs) blocks s) = reader s"
  "subscribers (fold (\<lambda>stms. fold (\<lambda>ref. on_block ref stms) refs) blocks s) = subscribers s"
  "reader_calls (fold (\<lambda>stms. fold (\<lambda>ref. on_block ref stms) refs) blocks s) = reader_calls s"
  "Impl.logger (fold (\<lambda>stms. fold (\<lambda>ref. on_block ref stms) refs) blocks s) = Impl.logger s"
  "Impl.stopped (fold (\<lambda>stms. fold (\<lambda>ref. on_block ref stms) refs) blocks s) = Impl.stopped s"
  "buffer (fold (\<lambda>stms. fold (\<lambda>ref. on_block ref stms) refs) blocks s) = buffer s"
  "buffer_size (fold (\<lambda>stms. fold (\<lambda>ref. on_block ref stms) refs) blocks s) = buffer_size s"
  by (induction blocks arbitrary: s; simp add: fold_on_block_fields)+

lemma notify_fields [simp]:
  "name (notify blocks s) = name s"
  "reader (notify blocks s) = reader s"
  "subscribers (notify blocks s) = subscribers s"
  "reader_calls (notify blocks s) = reader_calls s"
  "Impl.logger (notify blocks s) = Impl.logger s"
  "Impl.stopped (notify blocks s) = Impl.stopped s"
  "buffer (notify blocks s) = buffer s"
  "buffer_size (notify blocks s) = buffer_size s"
  by (simp_all add: notify_def fold_notify_fields)

lemma consume_available_fields [simp]:
  "buffer_size (consume_available rd s) = 0"
  "Impl.stopped (consume_available rd s) = Impl.stopped s"
  "Impl.logger (consume_available rd s) = Impl.logger s"
  "name (consume_available rd s) = name s"
  "subscribers (consume_available rd s) = subscribers s"
  "reader_calls (consume_available rd s) = reader_calls s @ [Consume (buffered_line s)]"
  by (simp_all add: consume_available_def Let_def split: prod.splits)

lemma Impl_new_fields [simp]:
  "buffer_size (Impl_new rd n b k) = 0"
  "\<not> Impl.stopped (Impl_new rd n b k)"
  "subscribers (Impl_new rd n b k) = [LogWorker, FileWorker]"
  "log_worker (Impl_new rd n b k) = Worker_new 1"
  "file_worker (Impl_new rd n b k) = Worker_new k"
  "reader_calls (Impl_new rd n b k) = []"
  "Impl.logger (Impl_new rd n b k) = []"
  "name (Impl_new rd n b k) = n"
  "reader (Impl_new rd n b k) = Reader_new rd b"
  by (simp_all add: Impl_new_def subscribe_def)

subsection \<open>The lines of the input and the capacity of the buffer\<close>

lemma split_lines_not_Nil [simp]: "split_lines data \<noteq> []"
  by (induction data) (auto split: list.splits)

lemma split_lines_no_newline: "CHR 0x0A \<notin> set l \<Longrightarrow> split_lines l = [l]"
  by (induction l) auto

lemma split_lines_line:
  "CHR 0x0A \<notin> set l \<Longrightarrow> split_lines (l @ CHR 0x0A # rest) = l # split_lines rest"
  by (induction l) auto

lemma lines_fit_Nil [simp]: "lines_fit used [] = (used \<le> buffer_capacity)"
  by (simp add: lines_fit_def)

lemma lines_fit_newline [simp]:
  "lines_fit used (CHR 0x0A # data) = (used \<le> buffer_capacity \<and> lines_fit 0 data)"
  by (cases "split_lines data") (auto simp: lines_fit_def)

lemma lines_fit_char [simp]:
  "c \<noteq> CHR 0x0A \<Longrightarrow> lines_fit used (c # data) = lines_fit (Suc used) data"
  by (cases "split_lines data") (auto simp: lines_fit_def)

lemma lines_fit_fresh:
  "lines_fit 0 data = (\<forall>l \<in> set (split_lines data). length l \<le> buffer_capacity)"
  by (cases "split_lines data") (auto simp: lines_fit_def)

lemma consume_bytes_error: "consume_bytes rd data s = Inl e \<Longrightarrow> e = OutOfRange"
  by (induction data arbitrary: s) (auto split: if_splits)

lemma consume_bytes_returns_iff:
  "buffer_size s \<le> buffer_capacity \<Longrightarrow>
   (\<exists>s'. consume_bytes rd data s = Inr s') = lines_fit (buffer_size s) data"
proof (induction data arbitrary: s)
  case Nil
  then show ?case by simp
next
  case (Cons c data)
  show ?case
  proof (cases "c = CHR 0x0A")
    case True
    with Cons.IH [of "consume_available rd s"] Cons.prems show ?thesis by simp
  next
    case False
    show ?thesis
    proof (cases "buffer_size s < buffer_capacity")
      case True
      with Cons.IH [of "s\<lparr>buffer := (buffer s)(buffer_size s := c), buffer_size := buffer_size s + 1\<rparr>"]
        False
      show ?thesis by simp
    next
      case full: False
      then have "\<not> lines_fit (Suc (buffer_size s)) data"
        by (simp add: lines_fit_def)
      with full False show ?thesis by simp
    qed
  qed
qed

lemma lines_fit_line_feeds:
  "set data \<subseteq> {CHR 0x0A} \<Longrightarrow> lines_fit used data = (used \<le> buffer_capacity)"
  by (induction data arbitrary: used) (auto simp: buffer_capacity_def)

subsection \<open>The loop of consume and its 32-bit index\<close>

lemma consume_from_drop:
  "length data < 2 ^ 32 \<Longrightarrow> i \<le> length data \<Longrightarrow>
   consume_from rd data (of_nat i) s = Some (consume_bytes rd (drop i data) s)"
proof (induction "length data - i" arbitrary: i s)
  case 0
  then show ?case
    by (subst consume_from.simps) (simp add: unat_of_nat)
next
  case (Suc n)
  then have i: "i < length data" and u: "unat (of_nat i :: 32 word) = i"
    by (simp_all add: unat_of_nat)
  have d: "drop i data = data ! i # drop (Suc i) data"
    using i by (simp add: Cons_nth_drop_Suc)
  have n: "n = length data - Suc i" using Suc.hyps(2) by simp
  have next_i: "(of_nat i :: 32 word) + 1 = of_nat (Suc i)" by simp
  note IH = Suc.hyps(1) [OF n Suc.prems(1), unfolded next_i [symmetric]]
  show ?case
    using i u d IH by (subst consume_from.simps) (simp del: of_nat_Suc)
qed

lemma consume_short:
  "length data < 2 ^ 32 \<Longrightarrow> consume rd data s = consume_bytes rd data s"
  using consume_from_drop [of data 0 rd s] by (simp add: consume_def)



lemma consume_from_endless:
  assumes "2 ^ 32 \<le> length data" and "set data \<subseteq> {CHR 0x0A}"
  shows "consume_from rd data i s = None"
proof (cases "consume_from rd data i s")
  case None
  then show ?thesis .
next
  case (Some res)
  have "2 ^ 32 \<le> length data \<and> set data \<subseteq> {CHR 0x0A} \<longrightarrow> False"
  proof (rule consume_from.raw_induct
      [where P = "\<lambda>rd data i s res. 2 ^ 32 \<le> length data \<and> set data \<subseteq> {CHR 0x0A} \<longrightarrow> False"
         and rd = rd and data = data and i = i and s = s and y = res])
    fix f :: "'a Reader \<Rightarrow> string \<Rightarrow> 32 word \<Rightarrow> 'a Impl \<Rightarrow> (error + 'a Impl) option"
    fix rd data i s res
    assume IH: "\<And>rd data i s y. f rd data i s = Some y \<Longrightarrow>
                  2 ^ 32 \<le> length data \<and> set data \<subseteq> {CHR 0x0A} \<longrightarrow> False"
      and eq: "(if unat i < length data then
        (if data ! unat i = CHR 0x0A then f rd data (i + 1) (consume_available rd s)
         else if buffer_size s < buffer_capacity
         then f rd data (i + 1)
                (s\<lparr>buffer := (buffer s)(buffer_size s := data ! unat i),
                   buffer_size := buffer_size s + 1\<rparr>)
         else Some (Inl OutOfRange))
      else Some (Inr s)) = Some res"
    show "2 ^ 32 \<le> length data \<and> set data \<subseteq> {CHR 0x0A} \<longrightarrow> False"
    proof
      assume long: "2 ^ 32 \<le> length data \<and> set data \<subseteq> {CHR 0x0A}"
      have "unat i < 2 ^ 32" using unsigned_less [of i] by simp
      with long have i: "unat i < length data" by simp
      then have "data ! unat i \<in> set data" by simp
      with long have "data ! unat i = CHR 0x0A" by blast
      with i eq have "f rd data (i + 1) (consume_available rd s) = Some res" by simp
      from IH [OF this] long show False by blast
    qed
  next
    show "consume_from rd data i s = Some res" by fact
  qed
  with assms show ?thesis by blast
qed

lemma consume_endless:
  "2 ^ 32 \<le> length data \<Longrightarrow> set data \<subseteq> {CHR 0x0A} \<Longrightarrow> consume rd data s = Inl Blocked"
  using consume_from_endless [of data rd 0 s] by (simp add: consume_def)

text \<open>In a call of fewer than \<open>2 ^ 32\<close> bytes, on an interpreter whose buffer is within
  the capacity: \<^verbatim>\<open>consume\<close> returns when every line fits (the bytes already buffered
  counted into the first), and ends in the out-of-range fault when some line does not.\<close>

lemma consume_short_outcome:
  assumes "buffer_size s \<le> buffer_capacity" and "length data < 2 ^ 32"
  shows "(lines_fit (buffer_size s) data \<longrightarrow> (\<exists>s'. consume rd data s = Inr s'))
       \<and> (\<not> lines_fit (buffer_size s) data \<longrightarrow> consume rd data s = Inl OutOfRange)"
proof -
  have "consume_bytes rd data s = Inl OutOfRange" if "\<not> lines_fit (buffer_size s) data"
  proof (cases "consume_bytes rd data s")
    case (Inl e)
    then show ?thesis using consume_bytes_error [OF Inl] by simp
  next
    case (Inr s')
    with that consume_bytes_returns_iff [OF assms(1), of rd data] show ?thesis by auto
  qed
  with consume_bytes_returns_iff [OF assms(1), of rd data] show ?thesis
    by (auto simp: consume_short [OF assms(2)])
qed

lemma consume_short_example:
  "consume fixed_reader (replicate 1025 CHR ''x'') (Impl_new fixed_reader ''0'' 3 2) = Inl OutOfRange
   \<and> (\<exists>s'. consume fixed_reader (replicate 1024 CHR ''x'' @ [CHR 0x0A, CHR ''y''])
              (Impl_new fixed_reader ''0'' 3 2) = Inr s')"
proof -
  let ?s = "Impl_new fixed_reader ''0'' 3 2"
  have h: "buffer_size ?s \<le> buffer_capacity" by simp
  have long: "\<not> lines_fit (buffer_size ?s) (replicate 1025 CHR ''x'')"
    by (simp add: lines_fit_fresh split_lines_no_newline buffer_capacity_def)
  have "split_lines (replicate 1024 CHR ''x'' @ [CHR 0x0A, CHR ''y'']) = [replicate 1024 CHR ''x'', ''y'']"
    by (simp add: split_lines_line)
  then have fit: "lines_fit (buffer_size ?s) (replicate 1024 CHR ''x'' @ [CHR 0x0A, CHR ''y''])"
    by (simp add: lines_fit_fresh buffer_capacity_def)
  have l1: "length (replicate 1025 CHR ''x'') < 2 ^ 32"
    and l2: "length (replicate 1024 CHR ''x'' @ [CHR 0x0A, CHR ''y'']) < 2 ^ 32"
    by simp_all
  from consume_short_outcome [OF h l1, of fixed_reader] long
    consume_short_outcome [OF h l2, of fixed_reader] fit
  show ?thesis by blast
qed

text \<open>
  Claim C7 (bounded line buffer): the code breaks it. The fault on a line longer than
  the capacity is as the claim says (\<open>consume_short_outcome\<close>). But an input whose
  lines all fit need not complete: here the buffer is empty and the input is \<open>2 ^ 32\<close>
  line feeds, so every line is empty, and \<^verbatim>\<open>consume\<close> does not return. The index of its loop is 32 bits wide
  and wraps around to 0 before it reaches \<^verbatim>\<open>data.size()\<close>.
\<close>

theorem bounded_line_buffer_endless:
  "buffer_size (Impl_new fixed_reader ''0'' 3 2) = 0
   \<and> list_all (\<lambda>l. length l \<le> buffer_capacity) (split_lines (replicate (2 ^ 32) (CHR 0x0A)))
   \<and> consume fixed_reader (replicate (2 ^ 32) (CHR 0x0A)) (Impl_new fixed_reader ''0'' 3 2)
       = Inl Blocked"
proof -
  define data where "data = replicate (2 ^ 32) (CHR 0x0A)"
  have long: "2 ^ 32 \<le> length data" and feeds: "set data \<subseteq> {CHR 0x0A}"
    by (simp_all add: data_def)
  have "lines_fit 0 data"
    using feeds by (simp add: lines_fit_line_feeds)
  then have "list_all (\<lambda>l. length l \<le> buffer_capacity) (split_lines data)"
    by (simp add: lines_fit_fresh list_all_iff)
  with consume_endless [OF long feeds] show ?thesis
    unfolding data_def by simp
qed

subsection \<open>Feeding the input in chunks\<close>

lemma consume_bytes_append:
  "consume_bytes rd (a @ b) s = (case consume_bytes rd a s of Inl e \<Rightarrow> Inl e | Inr s' \<Rightarrow> consume_bytes rd b s')"
  by (induction a arbitrary: s) simp_all

lemma consume_bytes_stopped:
  "consume_bytes rd data s = Inr s' \<Longrightarrow> Impl.stopped s' = Impl.stopped s"
  by (induction data arbitrary: s) (auto split: if_splits)

lemma consume_chunks_concat:
  "length (concat chunks) < 2 ^ 32 \<Longrightarrow>
   consume_chunks rd chunks s = Interpreter_consume rd (concat chunks) s"
proof (induction chunks arbitrary: s)
  case Nil
  then show ?case by (simp add: Interpreter_consume_def consume_short)
next
  case (Cons data rest)
  then have short: "length data < 2 ^ 32" "length (concat rest) < 2 ^ 32"
      "length (data @ concat rest) < 2 ^ 32"
    by simp_all
  note IH = Cons.IH [OF short(2)]
  show ?case
  proof (cases "Impl.stopped s")
    case True
    with IH [of s] show ?thesis by (simp add: Interpreter_consume_def)
  next
    case False
    show ?thesis
    proof (cases "consume_bytes rd data s")
      case (Inl e)
      with False show ?thesis
        by (simp add: Interpreter_consume_def consume_short [OF short(1)]
              consume_short [OF short(3)] consume_bytes_append)
    next
      case (Inr s')
      with False consume_bytes_stopped [OF Inr] IH [of s'] show ?thesis
        by (simp add: Interpreter_consume_def consume_short [OF short(1)]
              consume_short [OF short(2)] consume_short [OF short(3)] consume_bytes_append)
    qed
  qed
qed

lemma buffered_line_store:
  "buffered_line (s\<lparr>buffer := (buffer s)(buffer_size s := c), buffer_size := buffer_size s + 1\<rparr>)
     = buffered_line s @ [c]"
  by (simp add: buffered_line_def)

lemma buffered_line_consume_available [simp]:
  "buffered_line (consume_available rd s) = []"
  by (simp add: buffered_line_def)

lemma complete_lines_simps [simp]:
  "complete_lines b [] = []"
  "complete_lines b (CHR 0x0A # data) = b # complete_lines [] data"
  "c \<noteq> CHR 0x0A \<Longrightarrow> complete_lines b (c # data) = complete_lines (b @ [c]) data"
  by (cases "split_lines data"; simp add: complete_lines_def)+

lemma consume_bytes_reader_calls:
  "consume_bytes rd data s = Inr s' \<Longrightarrow>
   reader_calls s' = reader_calls s @ map Consume (complete_lines (buffered_line s) data)"
proof (induction data arbitrary: s)
  case Nil
  then show ?case by simp
next
  case (Cons c data)
  show ?case
  proof (cases "c = CHR 0x0A")
    case True
    with Cons.prems Cons.IH [of "consume_available rd s"] show ?thesis by simp
  next
    case False
    with Cons.prems have "buffer_size s < buffer_capacity"
      by (simp split: if_splits)
    with False Cons.prems
      Cons.IH [of "s\<lparr>buffer := (buffer s)(buffer_size s := c), buffer_size := buffer_size s + 1\<rparr>"]
    show ?thesis by (simp add: buffered_line_store del: One_nat_def)
  qed
qed

text \<open>Chunking invariance for an input of fewer than \<open>2 ^ 32\<close> bytes: the chunks and
  the whole both return, with the same interpreter state, in which the lines handed
  to the reader are the completed lines of the input.\<close>

lemma chunking_short:
  assumes "\<not> Impl.stopped s" and "lines_fit (buffer_size s) (concat chunks)"
    and "length (concat chunks) < 2 ^ 32"
  shows "\<exists>s'. Interpreter_consume rd (concat chunks) s = Inr s'
            \<and> consume_chunks rd chunks s = Inr s'
            \<and> reader_calls s' = reader_calls s
                 @ map Consume (complete_lines (buffered_line s) (concat chunks))"
proof -
  from assms(2) have "buffer_size s \<le> buffer_capacity"
    by (simp add: lines_fit_def)
  from consume_bytes_returns_iff [OF this, of rd "concat chunks"] assms(2)
  obtain s' where s': "consume_bytes rd (concat chunks) s = Inr s'" by auto
  with assms(1) consume_bytes_reader_calls [OF s'] show ?thesis
    by (simp add: consume_chunks_concat [OF assms(3)] Interpreter_consume_def
          consume_short [OF assms(3)])
qed

lemma chunking_short_example:
  "\<exists>s'. Interpreter_consume fixed_reader
               [CHR ''a'', CHR 0x0A, CHR ''b'', CHR ''c'', CHR 0x0A, CHR ''d'', CHR 0x0A, CHR ''e'']
               (Impl_new fixed_reader ''0'' 3 2) = Inr s'
           \<and> consume_chunks fixed_reader
               [''a'', [CHR 0x0A, CHR ''b'', CHR ''c''], [CHR 0x0A, CHR ''d'', CHR 0x0A, CHR ''e'']]
               (Impl_new fixed_reader ''0'' 3 2) = Inr s'
           \<and> reader_calls s' = [Consume ''a'', Consume ''bc'', Consume ''d'']"
proof -
  let ?s = "Impl_new fixed_reader ''0'' 3 2"
  let ?chunks = "[''a'', [CHR 0x0A, CHR ''b'', CHR ''c''], [CHR 0x0A, CHR ''d'', CHR 0x0A, CHR ''e'']]"
  have h1: "\<not> Impl.stopped ?s" by simp
  have h2: "lines_fit (buffer_size ?s) (concat ?chunks)"
    by (simp add: buffer_capacity_def)
  have h3: "length (concat ?chunks) < 2 ^ 32" by simp
  from chunking_short [OF h1 h2 h3, of fixed_reader] show ?thesis
    by (simp add: buffered_line_def)
qed

lemma consume_chunks_bytes:
  assumes "\<forall>data \<in> set chunks. length data < 2 ^ 32" and "\<not> Impl.stopped s"
  shows "consume_chunks rd chunks s = consume_bytes rd (concat chunks) s"
  using assms
proof (induction chunks arbitrary: s)
  case Nil
  then show ?case by simp
next
  case (Cons data rest)
  then have short: "length data < 2 ^ 32" by simp
  show ?case
  proof (cases "consume_bytes rd data s")
    case (Inl e)
    with Cons.prems show ?thesis
      by (simp add: Interpreter_consume_def consume_short [OF short] consume_bytes_append)
  next
    case (Inr s')
    with Cons.prems consume_bytes_stopped [OF Inr] have "\<not> Impl.stopped s'" by simp
    with Cons.IH [of s'] Cons.prems Inr show ?thesis
      by (simp add: Interpreter_consume_def consume_short [OF short] consume_bytes_append)
  qed
qed

text \<open>
  Claim C1 (chunking invariance): the code breaks it. For an input of fewer than
  \<open>2 ^ 32\<close> bytes the claim holds (\<open>chunking_short\<close>). Here the input is \<open>2 ^ 32\<close> line
  feeds and the buffer is empty, so every line is empty and fits. Fed as two chunks
  of \<open>2 ^ 31\<close> bytes to an interpreter that is not stopped, both calls of \<^verbatim>\<open>consume\<close>
  return; fed as a whole, the one call does not return: the 32-bit index of the loop
  of \<^verbatim>\<open>Impl::consume\<close> wraps around before it reaches \<^verbatim>\<open>data.size()\<close>.
\<close>

theorem chunking_invariance_endless:
  "\<not> Impl.stopped (Impl_new fixed_reader ''0'' 3 2)
   \<and> buffer_size (Impl_new fixed_reader ''0'' 3 2) = 0
   \<and> list_all (\<lambda>l. length l \<le> buffer_capacity)
         (split_lines (concat [replicate (2 ^ 31) (CHR 0x0A), replicate (2 ^ 31) (CHR 0x0A)]))
   \<and> \<not> isl (consume_chunks fixed_reader
               [replicate (2 ^ 31) (CHR 0x0A), replicate (2 ^ 31) (CHR 0x0A)]
               (Impl_new fixed_reader ''0'' 3 2))
   \<and> Interpreter_consume fixed_reader
         (concat [replicate (2 ^ 31) (CHR 0x0A), replicate (2 ^ 31) (CHR 0x0A)])
         (Impl_new fixed_reader ''0'' 3 2) = Inl Blocked"
proof -
  define half where "half = replicate (2 ^ 31) (CHR 0x0A)"
  define s where "s = Impl_new fixed_reader ''0'' 3 2"
  have half: "length half < 2 ^ 32" "set half \<subseteq> {CHR 0x0A}" "length half = 2 ^ 31"
    by (simp_all add: half_def)
  have s: "\<not> Impl.stopped s" "buffer_size s \<le> buffer_capacity" "buffer_size s = 0"
    by (simp_all add: s_def)
  have feeds: "set (concat [half, half]) \<subseteq> {CHR 0x0A}"
    using half(2) by simp
  have long: "2 ^ 32 \<le> length (concat [half, half])"
    by (simp add: half(3))
  have fit: "lines_fit (buffer_size s) (concat [half, half])"
    using s(2) by (simp only: lines_fit_line_feeds [OF feeds])
  have "consume_chunks fixed_reader [half, half] s
          = consume_bytes fixed_reader (concat [half, half]) s"
    using half(1) s(1) by (intro consume_chunks_bytes) simp_all
  moreover obtain s' where "consume_bytes fixed_reader (concat [half, half]) s = Inr s'"
    using consume_bytes_returns_iff [OF s(2), of fixed_reader "concat [half, half]"] fit
    by auto
  ultimately have chunks: "\<not> isl (consume_chunks fixed_reader [half, half] s)"
    by simp
  have whole: "Interpreter_consume fixed_reader (concat [half, half]) s = Inl Blocked"
    using consume_endless [OF long feeds, of fixed_reader s] s(1)
    by (simp only: Interpreter_consume_def if_False)
  from fit have "list_all (\<lambda>l. length l \<le> buffer_capacity) (split_lines (concat [half, half]))"
    unfolding s(3) by (simp only: lines_fit_fresh list_all_iff)
  with s(1,3) chunks whole show ?thesis
    unfolding half_def s_def by blast
qed

subsection \<open>Shutdown\<close>


lemma on_eof_result:
  assumes "on_eof rd sl sf s = Inr s'"
  shows "Impl.stopped s' = Impl.stopped s"
    and "Impl.logger s' = Impl.logger s"
    and "name s' = name s"
    and "reader_calls s' = reader_calls s
           @ (if buffer_size s \<noteq> 0 then [Consume (buffered_line s)] else []) @ [OnEof]"
    and "Worker.stopped (log_worker s') \<and> all_exited (log_worker s')"
    and "Worker.stopped (file_worker s') \<and> all_exited (file_worker s')"
  using assms
  by (auto simp: on_eof_def Let_def stop_def split: prod.splits sum.splits if_splits dest!: joinD)


lemma stop_and_log_metrics_result:
  assumes "\<not> Impl.stopped s" and "stop_and_log_metrics rd sl sf s = Inr s'"
  shows "\<exists>s1 lm rest. on_eof rd sl sf (s\<lparr>Impl.stopped := True\<rparr>) = Inr s1
           \<and> thread_metrics (log_worker s1) = lm # rest
           \<and> s' = s1\<lparr>Impl.logger := Impl.logger s1 @
                  [metrics_report (name s1) (Reader_get_metrics rd (reader s1)) lm
                     (thread_metrics (file_worker s1))]\<rparr>"
  using assms by (auto simp: stop_and_log_metrics_def split: sum.splits list.splits)

lemma on_block_log_metrics:
  "thread_metrics (log_worker (on_block ref stms s)) = thread_metrics (log_worker s)"
  by (cases ref) (simp_all add: send_def)

lemma fold_on_block_log_metrics:
  "thread_metrics (log_worker (fold (\<lambda>ref. on_block ref stms) refs s))
     = thread_metrics (log_worker s)"
  by (induction refs arbitrary: s) (simp_all add: on_block_log_metrics)

lemma fold_notify_log_metrics:
  "thread_metrics (log_worker (fold (\<lambda>stms. fold (\<lambda>ref. on_block ref stms) refs) blocks s))
     = thread_metrics (log_worker s)"
  by (induction blocks arbitrary: s) (simp_all add: fold_on_block_log_metrics)

lemma notify_log_metrics [simp]:
  "thread_metrics (log_worker (notify blocks s)) = thread_metrics (log_worker s)"
  by (simp add: notify_def fold_notify_log_metrics)

lemma consume_available_log_metrics [simp]:
  "thread_metrics (log_worker (consume_available rd s)) = thread_metrics (log_worker s)"
  by (simp add: consume_available_def Let_def split: prod.splits)

lemma on_block_pools:
  "working_pool (log_worker (on_block ref stms s)) = working_pool (log_worker s)"
  "working_pool (file_worker (on_block ref stms s)) = working_pool (file_worker s)"
  by (cases ref; simp)+

lemma fold_on_block_pools:
  "working_pool (log_worker (fold (\<lambda>ref. on_block ref stms) refs s)) = working_pool (log_worker s)"
  "working_pool (file_worker (fold (\<lambda>ref. on_block ref stms) refs s)) = working_pool (file_worker s)"
  by (induction refs arbitrary: s) (simp_all add: on_block_pools)

lemma fold_notify_pools:
  "working_pool (log_worker (fold (\<lambda>stms. fold (\<lambda>ref. on_block ref stms) refs) blocks s))
     = working_pool (log_worker s)"
  "working_pool (file_worker (fold (\<lambda>stms. fold (\<lambda>ref. on_block ref stms) refs) blocks s))
     = working_pool (file_worker s)"
  by (induction blocks arbitrary: s) (simp_all add: fold_on_block_pools)

lemma notify_pools [simp]:
  "working_pool (log_worker (notify blocks s)) = working_pool (log_worker s)"
  "working_pool (file_worker (notify blocks s)) = working_pool (file_worker s)"
  by (simp_all add: notify_def fold_notify_pools)

lemma consume_available_pools [simp]:
  "working_pool (log_worker (consume_available rd s)) = working_pool (log_worker s)"
  "working_pool (file_worker (consume_available rd s)) = working_pool (file_worker s)"
  by (simp_all add: consume_available_def Let_def split: prod.splits)

lemma eof_sent_pools [simp]:
  "working_pool (log_worker (eof_sent rd s)) = working_pool (log_worker s)"
  "working_pool (file_worker (eof_sent rd s)) = working_pool (file_worker s)"
  by (simp_all add: eof_sent_def Let_def split: prod.splits)











text \<open>
  Claim C8 (the steps of shutdown). When \<^verbatim>\<open>stop_and_log_metrics\<close> performs the transition
  (the interpreter was not stopped) and returns:
  \<^item> the calls it made on the reader are, in this order, \<^verbatim>\<open>consume\<close> of the partial line
    left in the buffer, made only when that line is non-empty, then \<^verbatim>\<open>on_eof\<close>;
  \<^item> both pools have been stopped and every thread of both has returned (\<^verbatim>\<open>stop\<close> on
    both, then \<^verbatim>\<open>join\<close> on both);
  \<^item> the one report logged is composed from the reader's counts after \<^verbatim>\<open>on_eof\<close> and
    from the per-thread metrics of the pools in that state, in which every thread has
    returned.
\<close>

theorem shutdown_steps:
  assumes "\<not> Impl.stopped s" and "stop_and_log_metrics rd sl sf s = Inr s'"
  shows "reader_calls s' = reader_calls s
           @ (if buffer_size s \<noteq> 0 then [Consume (buffered_line s)] else []) @ [OnEof]
       \<and> Worker.stopped (log_worker s') \<and> all_exited (log_worker s')
       \<and> Worker.stopped (file_worker s') \<and> all_exited (file_worker s')
       \<and> (\<exists>lm rest. thread_metrics (log_worker s') = lm # rest
            \<and> Impl.logger s' = Impl.logger s @
                 [metrics_report (name s) (Reader_get_metrics rd (reader s')) lm
                    (thread_metrics (file_worker s'))])"
proof -
  from stop_and_log_metrics_result [OF assms] obtain s1 lm rest where
    eof: "on_eof rd sl sf (s\<lparr>Impl.stopped := True\<rparr>) = Inr s1"
    and lm: "thread_metrics (log_worker s1) = lm # rest"
    and s': "s' = s1\<lparr>Impl.logger := Impl.logger s1 @
                  [metrics_report (name s1) (Reader_get_metrics rd (reader s1)) lm
                     (thread_metrics (file_worker s1))]\<rparr>"
    by blast
  from on_eof_result [OF eof] lm s' show ?thesis
    by (simp add: buffered_line_def)
qed

theorem shutdown_steps_witness:
  "\<exists>s'. stop_and_log_metrics fixed_reader [0, 0, 0] [0, 0, 0, 1, 1]
          ((Impl_new fixed_reader ''0'' 3 2)
             \<lparr>buffer := (\<lambda>_. CHR 0x00)(0 := CHR ''b''), buffer_size := 1\<rparr>) = Inr s'
      \<and> reader_calls s' = [Consume ''b'', OnEof]
      \<and> all_exited (log_worker s') \<and> all_exited (file_worker s')
      \<and> processed (log_worker s') = [[''b'']]"
proof -
  let ?s = "(Impl_new fixed_reader ''0'' 3 2)
             \<lparr>buffer := (\<lambda>_. CHR 0x00)(0 := CHR ''b''), buffer_size := 1\<rparr>"
  have h: "\<not> Impl.stopped ?s" by simp
  obtain s' where r: "stop_and_log_metrics fixed_reader [0, 0, 0] [0, 0, 0, 1, 1] ?s = Inr s'"
    and p: "processed (log_worker s') = [[''b'']]"
    by (simp add: stop_and_log_metrics_def on_eof_def consume_available_def buffered_line_def
        Let_def fixed_reader_def notify_def Impl_new_def subscribe_def send_def
        join_def all_exited_def thread_step_def stop_def Worker_new_def processed_def
        numeral_2_eq_2)
  from shutdown_steps [OF h r] r p show ?thesis
    by (simp add: buffered_line_def)
qed

lemma fresh_shutdown:
  "\<exists>s'. stop_and_log_metrics fixed_reader [0, 0] [0, 0, 1, 1]
          (Impl_new fixed_reader nm 3 nthreads_per_connection) = Inr s'"
  by (simp add: stop_and_log_metrics_def on_eof_def Let_def fixed_reader_def notify_def
        join_def all_exited_def thread_step_def stop_def Worker_new_def
        nthreads_per_connection_def numeral_2_eq_2)

section \<open>Properties of the table of connections\<close>

subsection \<open>Runs\<close>

lemma connect_result:
  "connect rd bulk g = Inr (h, g') \<Longrightarrow> h = next_id g \<and> next_id g' = next_id g + 1"
  by (auto simp: connect_def Let_def split: option.splits)

lemma receive_next_id: "receive rd h data g = Inr g' \<Longrightarrow> next_id g' = next_id g"
  by (auto simp: receive_def split: option.splits sum.splits)

lemma disconnect_next_id: "disconnect rd h sl sf g = Inr g' \<Longrightarrow> next_id g' = next_id g"
  by (auto simp: disconnect_def split: option.splits sum.splits)

lemma upt_shift:
  "map (\<lambda>k. (a :: 64 word) + of_nat k) [0..<Suc n] = a # map (\<lambda>k. a + 1 + of_nat k) [0..<n]"
proof -
  have "[0..<Suc n] = 0 # map Suc [0..<n]"
    by (simp add: upt_conv_Cons map_Suc_upt del: upt_Suc)
  then show ?thesis by (simp add: comp_def add.assoc del: upt_Suc)
qed

lemma run_handles:
  "run rd cs g = Inr (hs, g') \<Longrightarrow>
   hs = map (\<lambda>k. next_id g + of_nat k) [0..<length hs]
   \<and> next_id g' = next_id g + of_nat (length hs)"
proof (induction rd cs g arbitrary: hs g' rule: run.induct)
  case (1 rd g)
  then show ?case by simp
next
  case (2 rd bulk cs g)
  from "2.prems" obtain h g1 hs1 where
    c: "connect rd bulk g = Inr (h, g1)" and r: "run rd cs g1 = Inr (hs1, g')"
    and hs: "hs = h # hs1"
    by (auto split: sum.splits prod.splits)
  from "2.IH" [OF c refl r] connect_result [OF c] hs upt_shift [of "next_id g" "length hs1"]
  show ?case by (simp add: add.assoc del: upt_Suc)
next
  case (3 rd h data cs g)
  from "3.prems" obtain g1 where
    c: "receive rd h data g = Inr g1" and r: "run rd cs g1 = Inr (hs, g')"
    by (auto split: sum.splits)
  from "3.IH" [OF c r] receive_next_id [OF c] show ?case by simp
next
  case (4 rd h sl sf cs g)
  from "4.prems" obtain g1 where
    c: "disconnect rd h sl sf g = Inr g1" and r: "run rd cs g1 = Inr (hs, g')"
    by (auto split: sum.splits)
  from "4.IH" [OF c r] disconnect_next_id [OF c] show ?case by simp
next
  case (5 rd h ref i cs g)
  show ?case
  proof (cases "connections g h")
    case None
    with "5.prems" "5.IH"(1) [OF None] show ?thesis by simp
  next
    case (Some intrp)
    with "5.prems" "5.IH"(2) [OF Some] show ?thesis by simp
  qed
qed

lemma sorted_handles:
  "n \<le> 2 ^ 64 \<Longrightarrow> sorted_wrt (<) (map (of_nat :: nat \<Rightarrow> 64 word) [0..<n])"
  by (simp add: sorted_wrt_iff_nth_less word_of_nat_less_iff take_bit_nat_eq_self
           del: upt_Suc)

lemma run_append:
  "run rd (as @ bs) g =
     (case run rd as g of
        Inl e \<Rightarrow> Inl e
      | Inr (hs, g') \<Rightarrow>
          (case run rd bs g' of Inl e \<Rightarrow> Inl e | Inr (hs', g'') \<Rightarrow> Inr (hs @ hs', g'')))"
proof (induction rd as g rule: run.induct)
  case (1 rd g)
  then show ?case by (simp split: sum.splits)
next
  case (2 rd bulk cs g)
  then show ?case by (simp split: sum.splits prod.splits)
next
  case (3 rd h data cs g)
  then show ?case by (simp split: sum.splits)
next
  case (4 rd h sl sf cs g)
  then show ?case by (simp split: sum.splits)
next
  case (5 rd h ref i cs g)
  then show ?case by (simp split: option.splits)
qed

lemma connect_connected:
  assumes "n < 2 ^ 64"
  shows "connect rd bulk (connected rd bulk n) = Inr (of_nat n, connected rd bulk (Suc n))"
proof -
  have n: "unat (of_nat n :: 64 word) = n"
    using assms by (simp add: unat_of_nat)
  have "(\<lambda>id :: 64 word. if unat id < n
            then Some (Impl_new rd (to_string (unat id)) bulk nthreads_per_connection) else None)
          (of_nat n \<mapsto> Impl_new rd (to_string (unat (of_nat n :: 64 word))) bulk nthreads_per_connection)
        = (\<lambda>id. if unat id < Suc n
            then Some (Impl_new rd (to_string (unat id)) bulk nthreads_per_connection) else None)"
  proof
    fix id :: "64 word"
    show "((\<lambda>id :: 64 word. if unat id < n
            then Some (Impl_new rd (to_string (unat id)) bulk nthreads_per_connection) else None)
          (of_nat n \<mapsto> Impl_new rd (to_string (unat (of_nat n :: 64 word))) bulk nthreads_per_connection)) id
        = (if unat id < Suc n
            then Some (Impl_new rd (to_string (unat id)) bulk nthreads_per_connection) else None)"
    proof (cases "id = of_nat n")
      case True
      then show ?thesis using n by simp
    next
      case False
      then have "unat id \<noteq> n" using n by (auto simp: word_unat_eq_iff)
      with False show ?thesis by (simp add: less_Suc_eq)
    qed
  qed
  then show ?thesis
    using n by (simp add: connect_def connected_def Let_def)
qed

lemma run_connects:
  "n \<le> 2 ^ 64 \<Longrightarrow>
   run rd (replicate n (Connect bulk)) g_conn_handler
     = Inr (map of_nat [0..<n], connected rd bulk n)"
proof (induction n)
  case 0
  then show ?case by (simp add: g_conn_handler_def connected_def)
next
  case (Suc n)
  then have n: "n < 2 ^ 64" and IH: "run rd (replicate n (Connect bulk)) g_conn_handler
     = Inr (map of_nat [0..<n], connected rd bulk n)"
    by simp_all
  have "replicate (Suc n) (Connect bulk) = replicate n (Connect bulk) @ [Connect bulk]"
    by (simp add: replicate_append_same)
  then show ?case
    using IH connect_connected [OF n, of rd bulk] by (simp only: run_append) simp
qed

lemma run_dom:
  "run rd cs g = Inr (hs, g') \<Longrightarrow> dom (connections g') \<subseteq> dom (connections g) \<union> set hs"
proof (induction rd cs g arbitrary: hs g' rule: run.induct)
  case (1 rd g)
  then show ?case by simp
next
  case (2 rd bulk cs g)
  from "2.prems" obtain h g1 hs1 where
    c: "connect rd bulk g = Inr (h, g1)" and r: "run rd cs g1 = Inr (hs1, g')"
    and hs: "hs = h # hs1"
    by (auto split: sum.splits prod.splits)
  from c have "dom (connections g1) \<subseteq> dom (connections g) \<union> {h}"
    by (auto simp: connect_def Let_def split: option.splits if_splits)
  with "2.IH" [OF c refl r] hs show ?case by auto
next
  case (3 rd h data cs g)
  from "3.prems" obtain g1 where
    c: "receive rd h data g = Inr g1" and r: "run rd cs g1 = Inr (hs, g')"
    by (auto split: sum.splits)
  from c have "dom (connections g1) \<subseteq> dom (connections g)"
    by (auto simp: receive_def split: option.splits sum.splits if_splits)
  with "3.IH" [OF c r] show ?case by auto
next
  case (4 rd h sl sf cs g)
  from "4.prems" obtain g1 where
    c: "disconnect rd h sl sf g = Inr g1" and r: "run rd cs g1 = Inr (hs, g')"
    by (auto split: sum.splits)
  from c have "dom (connections g1) \<subseteq> dom (connections g)"
    by (auto simp: disconnect_def split: option.splits sum.splits if_splits)
  with "4.IH" [OF c r] show ?case by auto
next
  case (5 rd h ref i cs g)
  show ?case
  proof (cases "connections g h")
    case None
    with "5.prems" "5.IH"(1) [OF None] show ?thesis by simp
  next
    case (Some intrp)
    with "5.prems" have r:
      "run rd cs (g\<lparr>connections := (connections g)(h \<mapsto> work ref i intrp)\<rparr>) = Inr (hs, g')"
      by simp
    have eq: "dom (connections (g\<lparr>connections := (connections g)(h \<mapsto> work ref i intrp)\<rparr>))
                = dom (connections g)"
      using Some by auto
    from "5.IH"(2) [OF Some r] show ?thesis unfolding eq .
  qed
qed

subsection \<open>Disconnecting\<close>





subsection \<open>Concurrent callers\<close>












lemma disconnect_phase_idle:
  "\<forall>c \<in> set pcs. c = AtTable \<Longrightarrow> disconnect_phase rd h g0 s0 (g0, None, pcs)"
  by (simp add: disconnect_phase_def)










subsection \<open>Connecting\<close>

lemma fold_notify_bulks:
  "bulks (log_worker (fold (\<lambda>stms. fold (\<lambda>ref. on_block ref stms) [LogWorker, FileWorker]) blocks s))
     = bulks (log_worker s) @ blocks
   \<and> bulks (file_worker (fold (\<lambda>stms. fold (\<lambda>ref. on_block ref stms) [LogWorker, FileWorker]) blocks s))
     = bulks (file_worker s) @ blocks"
  by (induction blocks arbitrary: s) (simp_all add: send_def)

lemma notify_both:
  assumes "subscribers s = [LogWorker, FileWorker]"
  shows "bulks (log_worker (notify blocks s)) = bulks (log_worker s) @ blocks
       \<and> bulks (file_worker (notify blocks s)) = bulks (file_worker s) @ blocks"
  using fold_notify_bulks [of blocks s] by (simp only: notify_def assms)

text \<open>
  Claim C10 (pool sizing). The connection \<^verbatim>\<open>connect\<close> creates, whatever the block size
  and the state of the table, has a logging pool of exactly one thread and a
  file-writing pool of exactly \<open>nthreads_per_connection = 2\<close> threads, both idle with
  empty queues, and has both pools subscribed to its reader, the logging pool first:
  every block the reader completes is sent to both pools.
\<close>

theorem pool_sizing:
  assumes "connect rd bulk g = Inr (h, g')"
  shows "\<exists>s. connections g' h = Some s
           \<and> log_worker s = Worker_new 1 \<and> length (thread_pool (log_worker s)) = 1
           \<and> file_worker s = Worker_new 2 \<and> length (thread_pool (file_worker s)) = 2
           \<and> subscribers s = [LogWorker, FileWorker]
           \<and> (\<forall>blocks. bulks (log_worker (notify blocks s)) = blocks
                      \<and> bulks (file_worker (notify blocks s)) = blocks)"
proof -
  let ?s = "Impl_new rd (to_string (unat (next_id g))) bulk nthreads_per_connection"
  from assms have "connections g' h = Some ?s"
    by (auto simp: connect_def Let_def split: option.splits)
  moreover have "bulks (log_worker (notify blocks ?s)) = blocks
      \<and> bulks (file_worker (notify blocks ?s)) = blocks" for blocks
    using notify_both [of ?s blocks] by (simp add: Worker_new_def)
  ultimately show ?thesis
    by (simp add: nthreads_per_connection_def) (simp add: Worker_new_def)
qed

theorem pool_sizing_witness:
  "\<exists>s. connect fixed_reader 3 g_conn_handler
          = Inr (0, \<lparr>logger = [], next_id = 1, connections = [0 \<mapsto> s]\<rparr>)
      \<and> thread_pool (log_worker s) = [Waiting]
      \<and> thread_pool (file_worker s) = [Waiting, Waiting]
      \<and> bulks (file_worker (notify [[''a'', ''b'', ''c'']] s)) = [[''a'', ''b'', ''c'']]"
proof -
  let ?s = "Impl_new fixed_reader (to_string (unat (0 :: 64 word))) 3 nthreads_per_connection"
  have c: "connect fixed_reader 3 g_conn_handler
             = Inr (0, \<lparr>logger = [], next_id = 1, connections = [0 \<mapsto> ?s]\<rparr>)"
    by (simp add: connect_def g_conn_handler_def)
  from pool_sizing [OF c] have
    "log_worker ?s = Worker_new 1 \<and> file_worker ?s = Worker_new 2
     \<and> (\<forall>blocks. bulks (file_worker (notify blocks ?s)) = blocks)"
    by simp
  then have "thread_pool (log_worker ?s) = [Waiting]
      \<and> thread_pool (file_worker ?s) = [Waiting, Waiting]
      \<and> bulks (file_worker (notify [[''a'', ''b'', ''c'']] ?s)) = [[''a'', ''b'', ''c'']]"
    by (simp add: Worker_new_def numeral_2_eq_2)
  with c show ?thesis by blast
qed

subsection \<open>Handles\<close>

text \<open>
  Claim C5 (handle uniqueness and monotonicity), as stated, fails: the id is a 64-bit
  counter and wraps around. After \<open>2 ^ 64\<close> calls of \<^verbatim>\<open>connect\<close> (which return the
  handles \<open>0\<close> up to \<open>2 ^ 64 - 1\<close>) and the disconnection of handle \<open>0\<close>, the next
  \<^verbatim>\<open>connect\<close> returns \<open>0\<close> again: a handle returned twice, and not greater than the
  handles returned before it.
\<close>

theorem handles_counterexample:
  "\<not> distinct (handles (run fixed_reader
       (replicate (2 ^ 64) (Connect 3) @ [Disconnect 0 [0, 0] [0, 0, 1, 1], Connect 3])
       g_conn_handler))"
proof -
  define N :: nat where "N = 2 ^ 64"
  have N: "N \<le> 2 ^ 64" "0 < N" and wrap: "(of_nat N :: 64 word) = 0"
    by (simp_all add: N_def)
  let ?g = "connected fixed_reader 3 N"
  have first: "connections ?g 0 = Some (Impl_new fixed_reader (to_string (unat (0 :: 64 word))) 3
                 nthreads_per_connection)"
    using N(2) by (simp add: connected_def)
  from fresh_shutdown obtain s' where
    s': "stop_and_log_metrics fixed_reader [0, 0] [0, 0, 1, 1]
           (Impl_new fixed_reader (to_string (unat (0 :: 64 word))) 3 nthreads_per_connection) = Inr s'"
    by blast
  obtain g1 where d: "disconnect fixed_reader 0 [0, 0] [0, 0, 1, 1] ?g = Inr g1"
    and g1: "connections g1 0 = None" "next_id g1 = 0"
    using first s' wrap by (simp add: disconnect_def connected_def)
  obtain g2 where c: "connect fixed_reader 3 g1 = Inr (0, g2)"
    using g1 by (simp add: connect_def Let_def)
  have "run fixed_reader (replicate N (Connect 3) @ [Disconnect 0 [0, 0] [0, 0, 1, 1], Connect 3])
          g_conn_handler = Inr (map of_nat [0..<N] @ [0], g2)"
    using run_connects [OF N(1), of fixed_reader 3] d c by (simp only: run_append) simp
  moreover have "(0 :: 64 word) \<in> set (map of_nat [0..<N])"
    using N(2) by (auto simp: image_iff intro: bexI [where x = 0])
  ultimately show ?thesis
    unfolding N_def [symmetric] by (simp add: handles_def del: upt_Suc)
qed

text \<open>
  Claim C5, amended. For every run of \<^verbatim>\<open>connect\<close>, \<^verbatim>\<open>receive\<close> and \<^verbatim>\<open>disconnect\<close> calls
  (and steps of the pools' threads) from the initial table in which \<^verbatim>\<open>connect\<close> returns
  at most \<open>2 ^ 64\<close> times: each \<^verbatim>\<open>connect\<close> returns a handle strictly greater than every
  handle returned before, and so no handle is returned twice, also after the
  connection it identified has been disconnected.
\<close>

theorem handles_increasing:
  assumes "run rd cs g_conn_handler = Inr (hs, g)" and "length hs \<le> 2 ^ 64"
  shows "sorted_wrt (<) hs \<and> distinct hs"
proof -
  from run_handles [OF assms(1)] have "hs = map of_nat [0..<length hs]"
    by (simp add: g_conn_handler_def)
  with sorted_handles [OF assms(2)] have "sorted_wrt (<) hs" by simp
  then show ?thesis using strict_sorted_iff by auto
qed

theorem handles_increasing_witness:
  "\<exists>g. run fixed_reader [Connect 3, Connect 3, Disconnect 0 [0, 0] [0, 0, 1, 1],
                          Receive 0 ''cd'', Connect 3] g_conn_handler = Inr ([0, 1, 2], g)
      \<and> sorted_wrt (<) [0, 1, 2 :: 64 word] \<and> distinct [0, 1, 2 :: 64 word]"
proof -
  let ?g = "connected fixed_reader 3 2"
  have two: "run fixed_reader (replicate 2 (Connect 3)) g_conn_handler
               = Inr (map of_nat [0..<2], ?g)"
    by (rule run_connects) simp
  have first: "connections ?g 0 = Some (Impl_new fixed_reader (to_string (unat (0 :: 64 word))) 3
                 nthreads_per_connection)"
    by (simp add: connected_def)
  from fresh_shutdown obtain s' where
    s': "stop_and_log_metrics fixed_reader [0, 0] [0, 0, 1, 1]
           (Impl_new fixed_reader (to_string (unat (0 :: 64 word))) 3 nthreads_per_connection) = Inr s'"
    by blast
  obtain g1 where d: "disconnect fixed_reader 0 [0, 0] [0, 0, 1, 1] ?g = Inr g1"
    and g1: "connections g1 0 = None" "connections g1 2 = None" "next_id g1 = 2"
    using first s' by (simp add: disconnect_def connected_def)
  have rc: "receive fixed_reader 0 ''cd'' g1 = Inr g1"
    using g1(1) by (simp add: receive_def)
  obtain g2 where c: "connect fixed_reader 3 g1 = Inr (2, g2)"
    using g1 by (simp add: connect_def Let_def)
  have "[Connect 3, Connect 3, Disconnect 0 [0, 0] [0, 0, 1, 1], Receive 0 ''cd'', Connect 3]
          = replicate 2 (Connect 3) @ [Disconnect 0 [0, 0] [0, 0, 1, 1], Receive 0 ''cd'', Connect 3]"
    by (simp add: numeral_2_eq_2)
  then have r: "run fixed_reader [Connect 3, Connect 3, Disconnect 0 [0, 0] [0, 0, 1, 1],
                          Receive 0 ''cd'', Connect 3] g_conn_handler = Inr ([0, 1, 2], g2)"
    using two d rc c by (simp only: run_append) (simp add: upt_rec)
  have l: "length [0, 1, 2 :: 64 word] \<le> 2 ^ 64" by simp
  from handles_increasing [OF r l] r show ?thesis by blast
qed

subsection \<open>Misuse\<close>

lemma receive_stores:
  assumes "connections g h = Some s" and "\<not> Impl.stopped s"
    and "buffer_size s < buffer_capacity" and "c \<noteq> CHR 0x0A"
  shows "receive rd h [c] g \<noteq> Inr g"
proof
  let ?s1 = "s\<lparr>buffer := (buffer s)(buffer_size s := c), buffer_size := buffer_size s + 1\<rparr>"
  have "length [c] < 2 ^ 32" by simp
  from consume_short [OF this, of rd s] assms(2,3,4)
  have "Interpreter_consume rd [c] s = Inr ?s1"
    by (simp add: Interpreter_consume_def)
  with assms(1) have "receive rd h [c] g = Inr (g\<lparr>connections := (connections g)(h \<mapsto> ?s1)\<rparr>)"
    by (simp add: receive_def)
  moreover assume "receive rd h [c] g = Inr g"
  ultimately have "g\<lparr>connections := (connections g)(h \<mapsto> ?s1)\<rparr> = g" by simp
  then have "connections (g\<lparr>connections := (connections g)(h \<mapsto> ?s1)\<rparr>) h = connections g h"
    by (simp only:)
  with assms(1) have "?s1 = s" by simp
  then have "buffer_size ?s1 = buffer_size s" by (simp only:)
  then show False by simp
qed

text \<open>
  Claim C6 (benign misuse), as stated, fails for a handle that has been disconnected:
  the id is a 64-bit counter and wraps around (see C5). After \<open>2 ^ 64\<close> calls of
  \<^verbatim>\<open>connect\<close>, the disconnection of handle \<open>0\<close> and one more \<^verbatim>\<open>connect\<close>, which returns
  \<open>0\<close> again, handle \<open>0\<close> has been disconnected, and yet \<^verbatim>\<open>receive\<close> on it is not a
  no-op: the byte goes into the buffer of the new connection.
\<close>

theorem benign_misuse_counterexample:
  "receive fixed_reader 0 ''x''
     (table (run fixed_reader
        (replicate (2 ^ 64) (Connect 3) @ [Disconnect 0 [0, 0] [0, 0, 1, 1], Connect 3])
        g_conn_handler))
   \<noteq> Inr (table (run fixed_reader
        (replicate (2 ^ 64) (Connect 3) @ [Disconnect 0 [0, 0] [0, 0, 1, 1], Connect 3])
        g_conn_handler))"
proof -
  define N :: nat where "N = 2 ^ 64"
  have N: "N \<le> 2 ^ 64" "0 < N" and wrap: "(of_nat N :: 64 word) = 0"
    by (simp_all add: N_def)
  let ?g = "connected fixed_reader 3 N"
  let ?s = "Impl_new fixed_reader (to_string (unat (0 :: 64 word))) 3 nthreads_per_connection"
  have first: "connections ?g 0 = Some ?s"
    using N(2) by (simp add: connected_def)
  from fresh_shutdown obtain s' where
    s': "stop_and_log_metrics fixed_reader [0, 0] [0, 0, 1, 1] ?s = Inr s'"
    by blast
  obtain g1 where d: "disconnect fixed_reader 0 [0, 0] [0, 0, 1, 1] ?g = Inr g1"
    and g1: "connections g1 0 = None" "next_id g1 = 0"
    using first s' wrap by (simp add: disconnect_def connected_def)
  obtain g2 where c: "connect fixed_reader 3 g1 = Inr (0, g2)"
    and g2: "connections g2 0 = Some ?s"
    using g1 by (simp add: connect_def Let_def)
  have "run fixed_reader (replicate N (Connect 3) @ [Disconnect 0 [0, 0] [0, 0, 1, 1], Connect 3])
          g_conn_handler = Inr (map of_nat [0..<N] @ [0], g2)"
    using run_connects [OF N(1), of fixed_reader 3] d c by (simp only: run_append) simp
  then have t: "table (run fixed_reader
        (replicate N (Connect 3) @ [Disconnect 0 [0, 0] [0, 0, 1, 1], Connect 3])
        g_conn_handler) = g2"
    by (simp add: table_def)
  have "receive fixed_reader 0 [CHR ''x''] g2 \<noteq> Inr g2"
    using g2 by (rule receive_stores) (simp_all add: buffer_capacity_def)
  then show ?thesis
    unfolding N_def [symmetric] t by simp
qed

text \<open>
  Claim C6, amended. In every table a run of the library reaches:
  \<^item> for a handle the table does not know, \<^verbatim>\<open>receive\<close> with any bytes and \<^verbatim>\<open>disconnect\<close>
    return normally and leave the whole table, and so every connection, as it was;
  \<^item> a handle that no \<^verbatim>\<open>connect\<close> of the run has returned is such a handle;
  \<^item> while \<^verbatim>\<open>connect\<close> has returned at most \<open>2 ^ 64\<close> times, a handle that \<^verbatim>\<open>connect\<close>
    had returned and that has been disconnected since is such a handle, whatever
    calls were made after its \<^verbatim>\<open>disconnect\<close>.
\<close>

theorem benign_misuse:
  assumes "run rd cs g_conn_handler = Inr (hs, g)"
  shows "(connections g h = None \<longrightarrow>
            receive rd h data g = Inr g \<and> disconnect rd h sl sf g = Inr g)
       \<and> (h \<notin> set hs \<longrightarrow> connections g h = None)
       \<and> (length hs \<le> 2 ^ 64 \<longrightarrow>
            (\<forall>cs1 sl0 sf0 cs2.
               cs = cs1 @ Disconnect h sl0 sf0 # cs2
               \<and> h \<in> set (handles (run rd cs1 g_conn_handler))
               \<longrightarrow> connections g h = None))"
proof (intro conjI impI allI)
  assume "connections g h = None"
  then show "receive rd h data g = Inr g" by (simp add: receive_def)
next
  assume "connections g h = None"
  then show "disconnect rd h sl sf g = Inr g" by (simp add: disconnect_def)
next
  assume "h \<notin> set hs"
  with run_dom [OF assms] show "connections g h = None"
    by (auto simp: g_conn_handler_def)
next
  fix cs1 sl0 sf0 cs2
  assume len: "length hs \<le> 2 ^ 64"
    and "cs = cs1 @ Disconnect h sl0 sf0 # cs2 \<and> h \<in> set (handles (run rd cs1 g_conn_handler))"
  then have cs: "cs = cs1 @ Disconnect h sl0 sf0 # cs2"
    and was: "h \<in> set (handles (run rd cs1 g_conn_handler))"
    by simp_all
  from assms cs obtain hs1 g1 hs2 where
    r1: "run rd cs1 g_conn_handler = Inr (hs1, g1)"
    and r2: "run rd (Disconnect h sl0 sf0 # cs2) g1 = Inr (hs2, g)"
    and hs: "hs = hs1 @ hs2"
    by (auto simp: run_append split: sum.splits prod.splits)
  from r2 obtain g2 where
    d: "disconnect rd h sl0 sf0 g1 = Inr g2" and r3: "run rd cs2 g2 = Inr (hs2, g)"
    by (auto split: sum.splits)
  from d have gone: "connections g2 h = None"
    by (auto simp: disconnect_def split: option.splits sum.splits)
  from run_handles [OF assms] have "hs = map of_nat [0..<length hs]"
    by (simp add: g_conn_handler_def)
  with sorted_handles [OF len] have "sorted_wrt (<) hs" by simp
  then have "distinct hs" using strict_sorted_iff by auto
  moreover from was r1 have "h \<in> set hs1" by (simp add: handles_def)
  ultimately have "h \<notin> set hs2" using hs by auto
  with run_dom [OF r3] gone show "connections g h = None" by auto
qed

theorem benign_misuse_witness:
  "\<exists>g. run fixed_reader [Connect 3, Connect 3, Disconnect 0 [0, 0] [0, 0, 1, 1], Connect 3]
          g_conn_handler = Inr ([0, 1, 2], g)
      \<and> receive fixed_reader 0 ''abc'' g = Inr g
      \<and> disconnect fixed_reader 0 [] [] g = Inr g
      \<and> receive fixed_reader 7 ''abc'' g = Inr g
      \<and> disconnect fixed_reader 7 [] [] g = Inr g"
proof -
  let ?g = "connected fixed_reader 3 2"
  let ?cs = "[Connect 3, Connect 3, Disconnect 0 [0, 0] [0, 0, 1, 1], Connect 3]"
  have two: "run fixed_reader (replicate 2 (Connect 3)) g_conn_handler
               = Inr (map of_nat [0..<2], ?g)"
    by (rule run_connects) simp
  then have two': "run fixed_reader [Connect 3, Connect 3] g_conn_handler = Inr ([0, 1], ?g)"
    by (simp add: numeral_2_eq_2 upt_rec)
  have first: "connections ?g 0 = Some (Impl_new fixed_reader (to_string (unat (0 :: 64 word))) 3
                 nthreads_per_connection)"
    by (simp add: connected_def)
  from fresh_shutdown obtain s' where
    s': "stop_and_log_metrics fixed_reader [0, 0] [0, 0, 1, 1]
           (Impl_new fixed_reader (to_string (unat (0 :: 64 word))) 3 nthreads_per_connection) = Inr s'"
    by blast
  obtain g1 where d: "disconnect fixed_reader 0 [0, 0] [0, 0, 1, 1] ?g = Inr g1"
    and g1: "connections g1 2 = None" "next_id g1 = 2"
    using first s' by (simp add: disconnect_def connected_def)
  obtain g2 where c: "connect fixed_reader 3 g1 = Inr (2, g2)"
    using g1 by (simp add: connect_def Let_def)
  have split: "?cs = replicate 2 (Connect 3) @ [Disconnect 0 [0, 0] [0, 0, 1, 1], Connect 3]"
    by (simp add: numeral_2_eq_2)
  have r: "run fixed_reader ?cs g_conn_handler = Inr ([0, 1, 2], g2)"
    unfolding split using two d c by (simp only: run_append) (simp add: upt_rec)
  have cut: "?cs = [Connect 3, Connect 3] @ Disconnect 0 [0, 0] [0, 0, 1, 1] # [Connect 3]"
    by simp
  have was: "(0 :: 64 word) \<in> set (handles (run fixed_reader [Connect 3, Connect 3] g_conn_handler))"
    unfolding two' by (simp add: handles_def)
  have len: "length [0, 1, 2 :: 64 word] \<le> 2 ^ 64" by simp
  have never: "(7 :: 64 word) \<notin> set [0, 1, 2]" by simp
  note known = benign_misuse [OF r, THEN conjunct1, rule_format]
  note never_returned = benign_misuse [OF r, THEN conjunct2, THEN conjunct1, rule_format]
  note disconnected = benign_misuse [OF r, THEN conjunct2, THEN conjunct2, rule_format, OF len]
  from disconnected [OF conjI [OF cut was]] have u0: "connections g2 0 = None" .
  from never_returned [OF never] have u7: "connections g2 7 = None" .
  from known [OF u0, of "''abc''" "[]" "[]"]
  have a: "receive fixed_reader 0 ''abc'' g2 = Inr g2 \<and> disconnect fixed_reader 0 [] [] g2 = Inr g2" .
  from known [OF u7, of "''abc''" "[]" "[]"]
  have b: "receive fixed_reader 7 ''abc'' g2 = Inr g2 \<and> disconnect fixed_reader 7 [] [] g2 = Inr g2" .
  from r a b show ?thesis by blast
qed

end
